theory Spec2Isabelle
  imports Complex_Main "HOL-Library.Sublist" "HOL-Library.Multiset"
begin

section \<open>Text as sequences of code points\<close>

text \<open>
  A Python \<open>str\<close> is a sequence of Unicode code points, and \<open>len\<close> counts code
  points. The model therefore uses lists of integers; \<open>ustr\<close> turns an ASCII
  literal into such a list so that examples stay readable. The ellipsis appended by
  \<open>shorten\<close> and \<open>ellipsize_line_to_width\<close> is the single code point U+2026.
\<close>

type_synonym str = "int list"

definition ustr :: "string \<Rightarrow> str" where
  "ustr s = map of_char s"

definition ellipsis :: int where
  "ellipsis = 8230"

text \<open>
  \<open>str.isspace\<close> for one code point; the same set is what \<open>\s\<close> matches in a
  \<open>str\<close> pattern. These are all 29 code points for which Python answers true.
\<close>

definition isspace :: "int \<Rightarrow> bool" where
  "isspace c \<longleftrightarrow>
     (9 \<le> c \<and> c \<le> 13) \<or> (28 \<le> c \<and> c \<le> 32) \<or> c = 133 \<or> c = 160 \<or> c = 5760 \<or>
     (8192 \<le> c \<and> c \<le> 8202) \<or> c = 8232 \<or> c = 8233 \<or> c = 8239 \<or> c = 8287 \<or>
     c = 12288"

definition lstrip :: "str \<Rightarrow> str" where
  "lstrip s = dropWhile isspace s"

definition rstrip :: "str \<Rightarrow> str" where
  "rstrip s = rev (dropWhile isspace (rev s))"

definition strip :: "str \<Rightarrow> str" where
  "strip s = rstrip (lstrip s)"

text \<open>Python slices \<open>s[:n]\<close> and \<open>s[n:]\<close>; a negative bound counts from the end.\<close>

definition py_take :: "int \<Rightarrow> 'a list \<Rightarrow> 'a list" where
  "py_take n xs = (if 0 \<le> n then take (nat n) xs else take (length xs - nat (- n)) xs)"

definition py_drop :: "int \<Rightarrow> 'a list \<Rightarrow> 'a list" where
  "py_drop n xs = (if 0 \<le> n then drop (nat n) xs else drop (length xs - nat (- n)) xs)"

text \<open>The substring test \<open>needle in hay\<close>.\<close>

fun contains :: "'a list \<Rightarrow> 'a list \<Rightarrow> bool" where
  "contains needle [] = (needle = [])"
| "contains needle (x # xs) = (prefix needle (x # xs) \<or> contains needle xs)"

section \<open>Text Normalizer: \<open>shorten\<close>\<close>

text \<open>\<open>cut.rsplit(" ", 1)[0]\<close> for a \<open>cut\<close> that contains a space: all of it before the last space.\<close>

definition before_last_space :: "str \<Rightarrow> str" where
  "before_last_space s = rev (tl (dropWhile (\<lambda>c. c \<noteq> 32) (rev s)))"

definition shorten :: "str \<Rightarrow> int \<Rightarrow> str" where
  "shorten s0 max_chars =
     (let s = strip s0 in
      if int (length s) \<le> max_chars then s
      else
        let cut0 = py_take (max_chars + 1) s;
            cut1 = (if 32 \<in> set cut0 then before_last_space cut0 else cut0)
        in rstrip cut1 @ [ellipsis])"

section \<open>WhatsApp text helpers: \<open>prefix_parts\<close>\<close>

text \<open>\<open>str(n)\<close> for a non-negative integer: its decimal digits.\<close>

fun dec :: "nat \<Rightarrow> str" where
  "dec n = (if n < 10 then [48 + int n] else dec (n div 10) @ [48 + int (n mod 10)])"

declare dec.simps [simp del]

text \<open>The f-string \<open>"({i}/{total})\n{c}"\<close>, with \<open>n\<close> for \<open>total\<close>.\<close>

definition part_label :: "nat \<Rightarrow> nat \<Rightarrow> str \<Rightarrow> str" where
  "part_label i n c = ustr ''('' @ dec i @ ustr ''/'' @ dec n @ ustr '')'' @ [10] @ c"

definition prefix_parts :: "str list \<Rightarrow> str list" where
  "prefix_parts chunks =
     (if length chunks \<le> 1 then chunks
      else
        let n = length chunks
        in map (\<lambda>(i, c). part_label i n c) (zip [1 ..< Suc (length chunks)] chunks))"

section \<open>Classifier\<close>

text \<open>
  An article is a dictionary in the source; the model keeps its fields in a record.
  Scores and timestamps are Python floats and datetimes: the model idealises floats as
  real numbers and a datetime as the number of seconds since the epoch.
\<close>

record article =
  title :: str
  summary :: str
  source :: str
  published :: real
  link :: str
  score :: real
  signals :: "str list option"

text \<open>
  \<open>str.lower\<close>, tabulated for code points below 256: there Python changes exactly the
  code points 65..90, 192..214 and 216..222, each to the code point 32 above it. The case
  mappings of other alphabets are not tabulated; the properties proved about
  \<open>classify\<close> speak about the lowered text and do not depend on the table.
\<close>

definition lower_cp :: "int \<Rightarrow> int" where
  "lower_cp c =
     (if (65 \<le> c \<and> c \<le> 90) \<or> (192 \<le> c \<and> c \<le> 214) \<or> (216 \<le> c \<and> c \<le> 222)
      then c + 32 else c)"

definition lower :: "str \<Rightarrow> str" where
  "lower s = map lower_cp s"

text \<open>The five section names \<open>"ZERO-DAYS"\<close>, \<open>"RANSOMWARE"\<close>, \<open>"BREACHES"\<close>, \<open>"PHISHING"\<close>, \<open>"OTHER"\<close>.\<close>

datatype category = ZERO_DAYS | RANSOMWARE | BREACHES | PHISHING | OTHER

definition classify :: "article \<Rightarrow> category" where
  "classify item =
     (let text = lower (title item @ ustr '' '' @ summary item) in
      if contains (ustr ''zero-day'') text \<or> contains (ustr ''zero day'') text \<or>
         contains (ustr ''0day'') text \<or> contains (ustr ''actively exploited'') text
      then ZERO_DAYS
      else if contains (ustr ''ransomware'') text then RANSOMWARE
      else if contains (ustr ''breach'') text \<or> contains (ustr ''data breach'') text then BREACHES
      else if contains (ustr ''phishing'') text then PHISHING
      else OTHER)"

text \<open>An article that mentions both ransomware and a breach, used as an example below.\<close>

definition example_item :: article where
  "example_item = \<lparr>title = ustr ''Ransomware gang claims data BREACH'', summary = ustr ''Files leaked.'',
     source = ustr ''Krebs on Security'', published = 0, link = [], score = 0, signals = None\<rparr>"

section \<open>Smart URL wrapping\<close>

text \<open>
  \<open>c.stringWidth(text, font, size)\<close> belongs to the PDF library; for a fixed font and size
  it is a function from text to a length, and the model takes it as the parameter
  \<open>width\<close>. Setting the canvas font has no effect on the returned lines.
\<close>

definition is_break_char :: "int \<Rightarrow> bool" where
  "is_break_char c \<longleftrightarrow> c \<in> set (ustr ''/?&=_-.#:'')"

text \<open>The \<open>enumerate(cur, 1)\<close> loop: the 1-based position of the last break character, or \<open>-1\<close>.\<close>

definition rescan_break :: "str \<Rightarrow> int" where
  "rescan_break s =
     fold (\<lambda>(i, cc) pos. if is_break_char cc then int i else pos)
       (zip [1 ..< Suc (length s)] s) (- 1)"

record wrap_state =
  lines :: "str list"
  cur :: str
  last_break_pos :: int

definition wrap_step :: "(str \<Rightarrow> real) \<Rightarrow> real \<Rightarrow> wrap_state \<Rightarrow> int \<Rightarrow> wrap_state" where
  "wrap_step width max_width st ch =
     (let cand = cur st @ [ch];
          pos = (if is_break_char ch then int (length cand) else last_break_pos st)
      in if width cand \<le> max_width then \<lparr>lines = lines st, cur = cand, last_break_pos = pos\<rparr>
         else if pos > 0 then
           (let rest = lstrip (py_drop pos (cur st));
                cur' = (if rest \<noteq> [] then rest @ [ch] else [ch])
            in \<lparr>lines = lines st @ [rstrip (py_take pos (cur st))], cur = cur',
                last_break_pos = rescan_break cur'\<rparr>)
         else if cur st \<noteq> [] then
           \<lparr>lines = lines st @ [cur st], cur = [ch], last_break_pos = rescan_break [ch]\<rparr>
         else
           \<lparr>lines = lines st @ [[ch]], cur = [], last_break_pos = rescan_break []\<rparr>)"

fun wrap_loop :: "(str \<Rightarrow> real) \<Rightarrow> real \<Rightarrow> wrap_state \<Rightarrow> str \<Rightarrow> wrap_state" where
  "wrap_loop width max_width st [] = st"
| "wrap_loop width max_width st (ch # url) =
     wrap_loop width max_width (wrap_step width max_width st ch) url"

definition wrap_url_smart :: "(str \<Rightarrow> real) \<Rightarrow> str \<Rightarrow> real \<Rightarrow> str list" where
  "wrap_url_smart width url0 max_width =
     (let url = strip url0 in
      if url = [] then []
      else
        let st = wrap_loop width max_width \<lparr>lines = [], cur = [], last_break_pos = - 1\<rparr> url
        in if cur st \<noteq> [] then lines st @ [cur st] else lines st)"

section \<open>Ellipsis truncation to a width\<close>

text \<open>
  The binary search \<open>while lo <= hi\<close> over the prefix length. \<open>hi\<close> can fall to \<open>-1\<close>, so
  the bounds are integers; the loop ends because \<open>hi - lo\<close> shrinks in both branches.
\<close>

function ellipsize_search :: "(str \<Rightarrow> real) \<Rightarrow> real \<Rightarrow> str \<Rightarrow> int \<Rightarrow> int \<Rightarrow> str \<Rightarrow> str" where
  "ellipsize_search width max_width text lo hi best =
     (if lo \<le> hi then
        (let mid = (lo + hi) div 2;
             cand = rstrip (py_take mid text) @ [ellipsis]
         in if width cand \<le> max_width
            then ellipsize_search width max_width text (mid + 1) hi cand
            else ellipsize_search width max_width text lo (mid - 1) best)
      else best)"
  by pat_completeness auto
termination
  by (relation "measure (\<lambda>(width, max_width, text, lo, hi, best). nat (hi - lo + 1))") auto

declare ellipsize_search.simps [simp del]

text \<open>The candidate that the search measures for a prefix length \<open>k\<close>.\<close>

definition ell_cand :: "str \<Rightarrow> int \<Rightarrow> str" where
  "ell_cand text k = rstrip (py_take k text) @ [ellipsis]"

definition ellipsize_line_to_width :: "(str \<Rightarrow> real) \<Rightarrow> str \<Rightarrow> real \<Rightarrow> str" where
  "ellipsize_line_to_width width text max_width =
     (if width text \<le> max_width then text
      else
        let best = ellipsize_search width max_width text 0 (int (length text)) []
        in if best \<noteq> [] then best else [ellipsis])"

section \<open>Layout engine\<close>

text \<open>
  Lengths are in points, \<open>inch = 72\<close>, on a landscape letter page of height 612. The
  source computes with floats; the model uses real numbers. The counters below are the
  local variables of \<open>build_pdf_bytes\<close> that its nested functions update: the two column
  cursors \<open>col_y\<close>, the active column \<open>current_col\<close>, the number \<open>page_num\<close> of the next page
  and the section \<open>last_sec\<close> of the previous block. Drawing on the canvas does not change
  them and is left out.
\<close>

definition inch :: real where
  "inch = 72"

definition margin :: real where
  "margin = 0.55 * inch"

definition top :: real where
  "top = 612 - margin"

definition bottom :: real where
  "bottom = 0.65 * inch"

record layout_state =
  col_y :: "real list"
  current_col :: nat
  page_num :: nat
  last_sec :: "category option"

text \<open>\<open>new_page\<close> numbers the page it starts and moves the page counter on.\<close>

definition new_page :: "layout_state \<Rightarrow> layout_state" where
  "new_page s = s\<lparr>page_num := page_num s + 1\<rparr>"

definition ensure_room :: "layout_state \<Rightarrow> real \<Rightarrow> layout_state" where
  "ensure_room s need =
     (if col_y s ! current_col s - need \<ge> bottom then s
      else if current_col s = 0 \<and> col_y s ! 1 - need \<ge> bottom then s\<lparr>current_col := 1\<rparr>
      else (new_page s)\<lparr>col_y := (col_y s)[0 := top, 1 := top], current_col := 0\<rparr>)"

text \<open>\<open>draw_section_block\<close> returns the cursor below a section header.\<close>

definition draw_section_block :: "real \<Rightarrow> real" where
  "draw_section_block y_top = (let h = 0.22 * inch in y_top - (h + 0.16 * inch))"

text \<open>
  The height of a story card depends on the article only through the numbers of lines
  that the PDF library's text wrapping gives: \<open>len(hl)\<close>, \<open>len(slines)\<close>, whether the
  kicker line is shown, whether there is a link, and \<open>len(link_lines)\<close> after the cap.
\<close>

record card =
  n_headline :: nat
  n_summary :: nat
  has_kicker :: bool
  has_link :: bool
  n_link :: nat

definition card_h :: "card \<Rightarrow> real" where
  "card_h cd =
     12 / 72 * inch +
     real (min 2 (n_headline cd)) * (0.16 * inch) +
     0.12 * inch +
     real (min 3 (n_summary cd)) * (0.13 * inch) +
     (if has_kicker cd then 0.11 * inch else 0) +
     (if has_link cd then real (n_link cd) * (0.11 * inch) else 0) +
     12 / 72 * inch"

definition draw_story_card :: "real \<Rightarrow> card \<Rightarrow> real" where
  "draw_story_card y_top cd = y_top - card_h cd - 0.16 * inch"

text \<open>One pass of the loop body \<open>for sec, item in items[:TOP_N]\<close>.\<close>

definition place_item :: "layout_state \<Rightarrow> category \<times> card \<Rightarrow> layout_state" where
  "place_item s0 blk =
     (let sec = fst blk; cd = snd blk;
          s1 = (if Some sec \<noteq> last_sec s0 then
                  (let s = ensure_room s0 (0.60 * inch)
                   in s\<lparr>col_y := (col_y s)[current_col s := draw_section_block (col_y s ! current_col s)],
                        last_sec := Some sec\<rparr>)
                else s0);
          s2 = ensure_room s1 (1.75 * inch);
          s3 = s2\<lparr>col_y := (col_y s2)[current_col s2 := draw_story_card (col_y s2 ! current_col s2) cd]\<rparr>
      in if col_y s3 ! 0 < col_y s3 ! 1 - 0.9 * inch then s3\<lparr>current_col := 1\<rparr>
         else if col_y s3 ! 1 < col_y s3 ! 0 - 0.9 * inch then s3\<lparr>current_col := 0\<rparr>
         else s3)"

fun place_items :: "layout_state \<Rightarrow> (category \<times> card) list \<Rightarrow> layout_state" where
  "place_items s [] = s"
| "place_items s (blk # blks) = place_items (place_item s blk) blks"

text \<open>The state in which the loop starts: the first page is open, both cursors at the top.\<close>

definition layout_start :: layout_state where
  "layout_start = \<lparr>col_y = [top, top], current_col = 0, page_num = 2, last_sec = None\<rparr>"

text \<open>
  The fixed section order and the grouping of the ranked list by section; \<open>lines_of\<close>
  stands for the line counts that the text wrapping gives for an article.
\<close>

definition sections_order :: "category list" where
  "sections_order = [ZERO_DAYS, RANSOMWARE, BREACHES, PHISHING, OTHER]"

definition grouped_items :: "article list \<Rightarrow> (category \<times> article) list" where
  "grouped_items news =
     concat (map (\<lambda>sec. map (\<lambda>it. (sec, it)) (filter (\<lambda>it. classify it = sec) news)) sections_order)"

definition layout_news :: "(article \<Rightarrow> card) \<Rightarrow> int \<Rightarrow> article list \<Rightarrow> layout_state" where
  "layout_news lines_of top_n news =
     place_items layout_start
       (map (\<lambda>(sec, it). (sec, lines_of it)) (py_take top_n (grouped_items news)))"

text \<open>Two kinds of cards used in the examples: a short one and a full one.\<close>

definition short_card :: card where
  "short_card = \<lparr>n_headline = 1, n_summary = 1, has_kicker = False, has_link = True, n_link = 2\<rparr>"

definition full_card :: card where
  "full_card = \<lparr>n_headline = 2, n_summary = 3, has_kicker = True, has_link = True, n_link = 2\<rparr>"

definition seven_cards :: "(category \<times> card) list" where
  "seven_cards = replicate 3 (OTHER, short_card) @ replicate 4 (OTHER, full_card)"

section \<open>Configuration and scoring\<close>

text \<open>
  The module-level settings read from the environment. Their defaults are those of the
  source.
\<close>

record config =
  top_n :: int
  lookback_hours :: int
  summary_max_chars :: int
  max_keyword_score :: int
  duplicate_threshold :: real
  show_signals :: bool

definition default_config :: config where
  "default_config = \<lparr>top_n = 10, lookback_hours = 72, summary_max_chars = 240,
     max_keyword_score = 80, duplicate_threshold = 0.93, show_signals = True\<rparr>"

definition KEYWORD_WEIGHTS :: "(str \<times> int) list" where
  "KEYWORD_WEIGHTS = map (\<lambda>(k, w). (ustr k, w))
     [(''zero-day'', 40), (''zero day'', 35), (''0day'', 35),
      (''ransomware'', 35),
      (''actively exploited'', 45),
      (''in the wild'', 30),
      (''data breach'', 30),
      (''breach'', 20),
      (''apt'', 35),
      (''critical'', 20),
      (''cve'', 15),
      (''remote code execution'', 35),
      (''rce'', 25),
      (''auth bypass'', 25),
      (''privilege escalation'', 20),
      (''malware'', 20),
      (''botnet'', 20),
      (''phishing'', 10),
      (''supply chain'', 30)]"

definition SOURCE_WEIGHTS :: "(str \<times> int) list" where
  "SOURCE_WEIGHTS = map (\<lambda>(k, w). (ustr k, w))
     [(''Krebs on Security'', 25),
      (''SANS NewsBites'', 25),
      (''Schneier on Security'', 20),
      (''The Hacker News'', 20),
      (''SecurityWeek'', 20),
      (''Sophos News'', 18),
      (''Unsupervised Learning'', 18),
      (''Dark Reading'', 15),
      (''Tripwire'', 15),
      (''Cybersecurity Dive'', 14),
      (''The Last Watchdog'', 14),
      (''CSO Online'', 15),
      (''WIRED Security'', 12),
      (''PCworld Security'', 10),
      (''CNET Security'', 10)]"

definition WORD_BOUNDARY_TOKENS :: "str list" where
  "WORD_BOUNDARY_TOKENS = [ustr ''apt'', ustr ''cve'', ustr ''rce'']"

text \<open>
  What \<open>\w\<close> matches in a \<open>str\<close> pattern, tabulated for code points below 256 (letters,
  digits and number-like characters of Latin-1, and the underscore).
\<close>

definition is_word_cp :: "int \<Rightarrow> bool" where
  "is_word_cp c \<longleftrightarrow>
     (48 \<le> c \<and> c \<le> 57) \<or> (65 \<le> c \<and> c \<le> 90) \<or> c = 95 \<or> (97 \<le> c \<and> c \<le> 122) \<or>
     c = 170 \<or> c = 178 \<or> c = 179 \<or> c = 181 \<or> c = 185 \<or> c = 186 \<or>
     (188 \<le> c \<and> c \<le> 190) \<or> (192 \<le> c \<and> c \<le> 214) \<or> (216 \<le> c \<and> c \<le> 246) \<or>
     (248 \<le> c \<and> c \<le> 255)"

text \<open>
  The regular expression \<open>\bT\b\<close> for a literal \<open>T\<close>: an occurrence of \<open>T\<close> with a word
  boundary on each side. A position is a word boundary when exactly one of the characters
  before and after it is a word character; outside the text there is none.
\<close>

definition word_at :: "str \<Rightarrow> int \<Rightarrow> bool" where
  "word_at s p \<longleftrightarrow> 0 \<le> p \<and> p < int (length s) \<and> is_word_cp (s ! nat p)"

definition boundary_at :: "str \<Rightarrow> nat \<Rightarrow> bool" where
  "boundary_at s p \<longleftrightarrow> word_at s (int p - 1) \<noteq> word_at s (int p)"

definition search_whole_word :: "str \<Rightarrow> str \<Rightarrow> bool" where
  "search_whole_word t s \<longleftrightarrow>
     (\<exists>i \<in> set [0 ..< Suc (length s)].
        prefix t (drop i s) \<and> boundary_at s i \<and> boundary_at s (i + length t))"

definition token_present :: "str \<Rightarrow> str \<Rightarrow> bool" where
  "token_present s token =
     (let t = strip (lower token) in
      if t \<in> set WORD_BOUNDARY_TOKENS \<or> length t \<le> 3 then search_whole_word t s
      else contains t s)"

text \<open>
  \<open>math.exp\<close> raises \<open>OverflowError\<close> when its result is too large for a float; the model
  raises when the exact exponential exceeds the largest finite double.
\<close>

datatype error = OverflowError

definition max_float :: real where
  "max_float = 2 ^ 1024 - 2 ^ 971"

definition math_exp :: "real \<Rightarrow> error + real" where
  "math_exp x = (if exp x > max_float then Inl OverflowError else Inr (exp x))"

definition recency_score :: "config \<Rightarrow> real \<Rightarrow> error + real" where
  "recency_score cfg hours_old =
     (let midpoint = real_of_int (max 1 (lookback_hours cfg));
          spread = max 2 (midpoint / 4)
      in case math_exp ((hours_old - midpoint) / spread) of
           Inl e \<Rightarrow> Inl e
         | Inr ex \<Rightarrow> Inr (30 / (1 + ex)))"

text \<open>\<open>round(x, 1)\<close>: to the nearest tenth, ties to the even one.\<close>

definition round_half_even :: "real \<Rightarrow> int" where
  "round_half_even x =
     (let f = \<lfloor>x\<rfloor> in
      if x - of_int f < 1 / 2 then f
      else if x - of_int f > 1 / 2 then f + 1
      else if even f then f else f + 1)"

definition round1 :: "real \<Rightarrow> real" where
  "round1 x = of_int (round_half_even (x * 10)) / 10"

text \<open>The loop over \<open>KEYWORD_WEIGHTS.items()\<close>.\<close>

definition keyword_score :: "str \<Rightarrow> real" where
  "keyword_score s =
     fold (\<lambda>(keyword, weight) acc. if token_present s keyword then acc + of_int weight else acc)
       KEYWORD_WEIGHTS 0"

definition source_weight :: "str \<Rightarrow> int" where
  "source_weight src = (case map_of SOURCE_WEIGHTS src of Some w \<Rightarrow> w | None \<Rightarrow> 10)"

text \<open>
  \<open>now\<close> is the reading of the clock that \<open>compute_score\<close> takes, in seconds like
  \<open>published\<close>.
\<close>

definition hours_old :: "real \<Rightarrow> article \<Rightarrow> real" where
  "hours_old now a = (now - published a) / 3600"

definition compute_score :: "config \<Rightarrow> real \<Rightarrow> article \<Rightarrow> error + real" where
  "compute_score cfg now a =
     (let s = lower (title a @ ustr '' '' @ summary a);
          sc = min (keyword_score s) (of_int (max_keyword_score cfg));
          sc = sc + of_int (source_weight (source a))
      in case recency_score cfg (hours_old now a) of
           Inl e \<Rightarrow> Inl e
         | Inr r \<Rightarrow> Inr (round1 (sc + max 0 r)))"

section \<open>Normalising titles and links\<close>

text \<open>\<open>re.sub(r"\s+", " ", s)\<close>: every run of whitespace becomes one space.\<close>

function collapse_ws :: "str \<Rightarrow> str" where
  "collapse_ws [] = []"
| "collapse_ws (c # cs) =
     (if isspace c then 32 # collapse_ws (dropWhile isspace cs) else c # collapse_ws cs)"
  by pat_completeness auto
termination
  by (relation "measure length") (auto simp: less_Suc_eq_le length_dropWhile_le)

definition normalize_space :: "str \<Rightarrow> str" where
  "normalize_space s = strip (collapse_ws s)"

text \<open>
  \<open>re.sub(r"#.*$", "", link)\<close>: the dot does not match a newline, so the match starts at
  the first \<open>#\<close> that has no newline after it and runs to the end.
\<close>

fun remove_fragment :: "str \<Rightarrow> str" where
  "remove_fragment [] = []"
| "remove_fragment (c # cs) = (if c = 35 \<and> 10 \<notin> set cs then [] else c # remove_fragment cs)"

text \<open>
  The length of a match of \<open>[?&]utm_[^=&]+=[^&]+\<close>, and of \<open>[?&]ref=[^&]+\<close>, at the start
  of a text, if there is one. Both patterns are greedy and can match in one way only.
\<close>

definition utm_match :: "str \<Rightarrow> nat option" where
  "utm_match s =
     (case s of [] \<Rightarrow> None
      | c # r \<Rightarrow>
          if (c = 63 \<or> c = 38) \<and> prefix (ustr ''utm_'') r then
            (let r1 = drop 4 r;
                 name = takeWhile (\<lambda>x. x \<noteq> 61 \<and> x \<noteq> 38) r1;
                 r2 = drop (length name) r1
             in if name \<noteq> [] \<and> prefix [61] r2 then
                  (let val = takeWhile (\<lambda>x. x \<noteq> 38) (tl r2)
                   in if val \<noteq> [] then Some (1 + 4 + length name + 1 + length val) else None)
                else None)
          else None)"

definition ref_match :: "str \<Rightarrow> nat option" where
  "ref_match s =
     (case s of [] \<Rightarrow> None
      | c # r \<Rightarrow>
          if (c = 63 \<or> c = 38) \<and> prefix (ustr ''ref='') r then
            (let val = takeWhile (\<lambda>x. x \<noteq> 38) (drop 4 r)
             in if val \<noteq> [] then Some (1 + 4 + length val) else None)
          else None)"

text \<open>
  \<open>re.sub(pattern, "", s)\<close> for such a pattern: scanning from the left, each match is
  dropped and the scan goes on behind it. \<open>skip\<close> counts the characters of the current
  match that are still to be dropped.
\<close>

fun delete_matches :: "(str \<Rightarrow> nat option) \<Rightarrow> nat \<Rightarrow> str \<Rightarrow> str" where
  "delete_matches m skip [] = []"
| "delete_matches m (Suc k) (c # cs) = delete_matches m k cs"
| "delete_matches m 0 (c # cs) =
     (case m (c # cs) of
        Some n \<Rightarrow> delete_matches m (n - 1) cs
      | None \<Rightarrow> c # delete_matches m 0 cs)"

text \<open>\<open>re.sub(r"\?$", "", link)\<close>: \<open>$\<close> matches at the end and before a final newline.\<close>

definition remove_trailing_question :: "str \<Rightarrow> str" where
  "remove_trailing_question s =
     (if s \<noteq> [] \<and> last s = 63 then butlast s
      else if length s \<ge> 2 \<and> last s = 10 \<and> last (butlast s) = 63 then butlast (butlast s) @ [10]
      else s)"

definition canonical_link :: "str \<Rightarrow> str" where
  "canonical_link link0 =
     (let l = strip link0;
          l = remove_fragment l;
          l = delete_matches utm_match 0 l;
          l = delete_matches ref_match 0 l
      in remove_trailing_question l)"

section \<open>Ranking pipeline\<close>

text \<open>
  What the pipeline reads of a feed entry: the timestamp that \<open>parse_entry_datetime\<close>
  resolves (\<open>None\<close> when there is none), the raw title and link, and the plain text that
  \<open>strip_html_to_text\<close> makes of the entry's content.
\<close>

record entry =
  e_published :: "real option"
  e_title :: str
  e_link :: str
  e_text :: str

text \<open>
  Two functions of the Python standard library are parameters of the model: the
  similarity \<open>SequenceMatcher(None, a, b).ratio()\<close> of \<open>difflib\<close> and \<open>html.unescape\<close>.
\<close>

record library =
  ratio :: "str \<Rightarrow> str \<Rightarrow> real"
  unescape :: "str \<Rightarrow> str"

definition safe_text :: "library \<Rightarrow> str \<Rightarrow> str" where
  "safe_text lib s = strip (unescape lib s)"

definition extract_summary :: "config \<Rightarrow> entry \<Rightarrow> str" where
  "extract_summary cfg e = shorten (e_text e) (summary_max_chars cfg)"

definition is_duplicate_title :: "library \<Rightarrow> str \<Rightarrow> str list \<Rightarrow> real \<Rightarrow> bool" where
  "is_duplicate_title lib ttl seen threshold =
     (let t = strip (lower ttl) in \<exists>s \<in> set seen. ratio lib t (strip (lower s)) > threshold)"

text \<open>The labels of \<open>scoring_signals\<close>; \<open>uniq\<close> keeps the first occurrence of each hit.\<close>

definition uniq :: "str list \<Rightarrow> str list" where
  "uniq hits = fold (\<lambda>h u. if h \<in> set u then u else u @ [h]) hits []"

definition scoring_signals :: "real \<Rightarrow> article \<Rightarrow> str list" where
  "scoring_signals now a =
     (let s = lower (title a @ ustr '' '' @ summary a);
          hits = map (\<lambda>keyword. if keyword = ustr ''zero day'' then ustr ''zero-day'' else keyword)
                   (filter (token_present s) (map fst KEYWORD_WEIGHTS));
          sig = take 4 (uniq hits);
          sig = (if source_weight (source a) \<ge> 20 then sig @ [ustr ''trusted source''] else sig)
      in if hours_old now a \<le> 6 then sig @ [ustr ''breaking'']
         else if hours_old now a \<le> 12 then sig @ [ustr ''recent'']
         else sig)"

text \<open>
  The variables of \<open>collect_and_rank\<close> that its loop updates, and \<open>ticks\<close>, the number of
  times the clock has been read: \<open>clock n\<close> is the \<open>n\<close>-th reading of \<open>now_utc()\<close> in seconds.
\<close>

record loop_state =
  articles :: "article list"
  seen_titles :: "str list"
  seen_links :: "str set"
  ticks :: nat

text \<open>
  The body of the inner loop for one entry of the feed of \<open>src\<close>. The article has no
  score before \<open>compute_score\<close> sets it; the record holds 0 until then. An overflow in
  \<open>compute_score\<close> is not caught and ends the run.
\<close>

definition process_entry ::
  "library \<Rightarrow> config \<Rightarrow> (nat \<Rightarrow> real) \<Rightarrow> real \<Rightarrow> str \<Rightarrow> loop_state \<Rightarrow> entry \<Rightarrow> error + loop_state" where
  "process_entry lib cfg clock cutoff src st e =
     (case e_published e of
        None \<Rightarrow> Inr st
      | Some pub \<Rightarrow>
          if pub < cutoff then Inr st
          else
            let ttl = normalize_space (e_title e);
                lnk = canonical_link (e_link e)
            in if ttl = [] then Inr st
               else if lnk \<noteq> [] \<and> lnk \<in> seen_links st then Inr st
               else
                 let st1 = (if lnk \<noteq> [] then st\<lparr>seen_links := insert lnk (seen_links st)\<rparr> else st)
                 in if is_duplicate_title lib ttl (seen_titles st1) (duplicate_threshold cfg)
                    then Inr st1
                    else
                      let st2 = st1\<lparr>seen_titles := seen_titles st1 @ [ttl]\<rparr>;
                          a = \<lparr>title = safe_text lib ttl,
                               summary = safe_text lib (extract_summary cfg e),
                               source = src, published = pub, link = lnk,
                               score = 0, signals = None\<rparr>
                      in case compute_score cfg (clock (ticks st2)) a of
                           Inl err \<Rightarrow> Inl err
                         | Inr sc \<Rightarrow>
                             if show_signals cfg then
                               Inr (st2\<lparr>articles := articles st2 @
                                      [a\<lparr>score := sc,
                                         signals := Some (scoring_signals (clock (ticks st2 + 1))
                                                           (a\<lparr>score := sc\<rparr>))\<rparr>],
                                    ticks := ticks st2 + 2\<rparr>)
                             else
                               Inr (st2\<lparr>articles := articles st2 @ [a\<lparr>score := sc\<rparr>],
                                    ticks := ticks st2 + 1\<rparr>))"

fun process_entries ::
  "library \<Rightarrow> config \<Rightarrow> (nat \<Rightarrow> real) \<Rightarrow> real \<Rightarrow> str \<Rightarrow> loop_state \<Rightarrow> entry list \<Rightarrow> error + loop_state" where
  "process_entries lib cfg clock cutoff src st [] = Inr st"
| "process_entries lib cfg clock cutoff src st (e # es) =
     (case process_entry lib cfg clock cutoff src st e of
        Inl err \<Rightarrow> Inl err
      | Inr st' \<Rightarrow> process_entries lib cfg clock cutoff src st' es)"

text \<open>
  The outer loop over the sources. A feed is \<open>None\<close> when fetching it raised, and is
  skipped.
\<close>

fun process_feeds ::
  "library \<Rightarrow> config \<Rightarrow> (nat \<Rightarrow> real) \<Rightarrow> real \<Rightarrow> loop_state \<Rightarrow> (str \<times> entry list option) list \<Rightarrow> error + loop_state" where
  "process_feeds lib cfg clock cutoff st [] = Inr st"
| "process_feeds lib cfg clock cutoff st ((src, None) # fs) =
     process_feeds lib cfg clock cutoff st fs"
| "process_feeds lib cfg clock cutoff st ((src, Some es) # fs) =
     (case process_entries lib cfg clock cutoff src st es of
        Inl err \<Rightarrow> Inl err
      | Inr st' \<Rightarrow> process_feeds lib cfg clock cutoff st' fs)"

definition cutoff_of :: "config \<Rightarrow> (nat \<Rightarrow> real) \<Rightarrow> real" where
  "cutoff_of cfg clock = clock 0 - of_int (lookback_hours cfg) * 3600"

definition collect :: "library \<Rightarrow> config \<Rightarrow> (nat \<Rightarrow> real) \<Rightarrow> (str \<times> entry list option) list \<Rightarrow> error + loop_state" where
  "collect lib cfg clock feeds =
     process_feeds lib cfg clock (cutoff_of cfg clock)
       \<lparr>articles = [], seen_titles = [], seen_links = {}, ticks = 1\<rparr> feeds"


text \<open>The entries that reach the link check: a timestamp within the window and a title.\<close>

definition eligible :: "real \<Rightarrow> entry \<Rightarrow> bool" where
  "eligible cutoff e \<longleftrightarrow>
     (case e_published e of None \<Rightarrow> False | Some pub \<Rightarrow> \<not> pub < cutoff) \<and>
     normalize_space (e_title e) \<noteq> []"

definition all_entries :: "(str \<times> entry list option) list \<Rightarrow> entry list" where
  "all_entries feeds = concat (map (\<lambda>(src, f). case f of None \<Rightarrow> [] | Some es \<Rightarrow> es) feeds)"

text \<open>
  Inputs for the examples: stand-ins for the two library functions that decide as they
  do where the examples use them (\<open>ratio\<close> is 1 on two equal strings; the unequal titles
  of the examples have a \<open>difflib\<close> ratio of at most 0.4, far below the threshold, and the
  stand-in gives 0; \<open>html.unescape\<close> leaves text without \<open>&\<close> unchanged), a clock that stands
  still, and one feed with two entries of the same title and different links.
\<close>

definition example_lib :: library where
  "example_lib = \<lparr>ratio = (\<lambda>a b. if a = b then 1 else 0), unescape = (\<lambda>s. s)\<rparr>"

definition entry_one :: entry where
  "entry_one = \<lparr>e_published = Some 0, e_title = ustr ''Alpha flaw'',
     e_link = ustr ''http://a/1'', e_text = []\<rparr>"

definition entry_two :: entry where
  "entry_two = \<lparr>e_published = Some 0, e_title = ustr ''Alpha flaw'',
     e_link = ustr ''http://a/2'', e_text = []\<rparr>"

definition two_feeds :: "(str \<times> entry list option) list" where
  "two_feeds = [(ustr ''Krebs on Security'', Some [entry_one, entry_two])]"



section \<open>Chunking the digest\<close>









section \<open>The substring test\<close>

text \<open>\<open>contains\<close> is the usual notion of a contiguous occurrence.\<close>

lemma contains_iff: "contains needle hay \<longleftrightarrow> (\<exists>ps ss. hay = ps @ needle @ ss)"
proof (induction hay)
  case Nil
  then show ?case by auto
next
  case (Cons x xs)
  show ?case
  proof
    assume "contains needle (x # xs)"
    then consider "prefix needle (x # xs)" | "contains needle xs" by auto
    then show "\<exists>ps ss. x # xs = ps @ needle @ ss"
    proof cases
      case 1
      then obtain ss where "x # xs = needle @ ss" by (auto simp: prefix_def)
      then have "x # xs = [] @ needle @ ss" by simp
      then show ?thesis by blast
    next
      case 2
      then obtain ps ss where "xs = ps @ needle @ ss" using Cons.IH by blast
      then have "x # xs = (x # ps) @ needle @ ss" by simp
      then show ?thesis by blast
    qed
  next
    assume "\<exists>ps ss. x # xs = ps @ needle @ ss"
    then obtain ps ss where e: "x # xs = ps @ needle @ ss" by blast
    show "contains needle (x # xs)"
    proof (cases ps)
      case Nil
      then have "prefix needle (x # xs)" using e by (simp add: prefix_def)
      then show ?thesis by simp
    next
      case (Cons p ps')
      then have "xs = ps' @ needle @ ss" using e by simp
      then have "contains needle xs" using Cons.IH by blast
      then show ?thesis by simp
    qed
  qed
qed

section \<open>Properties of the text helpers\<close>

lemma rstrip_prefix: "prefix (rstrip s) s"
proof -
  have "rev s = takeWhile isspace (rev s) @ dropWhile isspace (rev s)" by simp
  then have "s = rev (dropWhile isspace (rev s)) @ rev (takeWhile isspace (rev s))"
    by (metis rev_append rev_rev_ident)
  then show ?thesis unfolding rstrip_def by (metis prefixI)
qed

lemma rstrip_length: "length (rstrip s) \<le> length s"
  using rstrip_prefix prefix_length_le by blast

lemma rstrip_idem: "rstrip (rstrip s) = rstrip s"
  unfolding rstrip_def by (simp add: dropWhile_idem)

lemma before_last_space_split:
  assumes "32 \<in> set s"
  shows "\<exists>ys. s = before_last_space s @ 32 # ys \<and> 32 \<notin> set ys"
proof -
  let ?d = "dropWhile (\<lambda>c. c \<noteq> 32) (rev s)"
  let ?t = "takeWhile (\<lambda>c. c \<noteq> 32) (rev s)"
  from assms have ne: "?d \<noteq> []" by (simp add: dropWhile_eq_Nil_conv) 
  then have hd: "hd ?d = 32" using hd_dropWhile[of "\<lambda>c. c \<noteq> 32" "rev s"] by simp
  from ne hd have d: "?d = 32 # tl ?d" by (metis list.collapse)
  have "rev s = ?t @ ?d" by simp
  then have "rev s = ?t @ 32 # tl ?d" using d by simp
  then have "s = rev (tl ?d) @ 32 # rev ?t"
    by (metis rev_append rev_rev_ident rev.simps(2) append_Cons append_Nil append_assoc)
  moreover have "32 \<notin> set (rev ?t)" using set_takeWhileD by fastforce
  ultimately show ?thesis unfolding before_last_space_def by blast
qed

text \<open>The last space of a cut: its position, and what precedes it.\<close>

lemma before_last_space_take:
  assumes "32 \<in> set (take n s)"
  shows "\<exists>k<n. k < length s \<and> s ! k = 32 \<and>
           (\<forall>j. k < j \<and> j < n \<and> j < length s \<longrightarrow> s ! j \<noteq> 32) \<and>
           before_last_space (take n s) = take k s"
proof -
  define c where "c = take n s"
  define b where "b = before_last_space c"
  obtain ys where ys: "c = b @ 32 # ys" "32 \<notin> set ys"
    using before_last_space_split[of c] assms unfolding c_def b_def by blast
  define k where "k = length b"
  have len: "length c = k + 1 + length ys"
    unfolding k_def by (subst ys(1)) simp
  have lc: "length c = min n (length s)" unfolding c_def by simp
  have kn: "k < n" and ks: "k < length s" using len lc by simp_all
  have ck: "c ! k = 32" unfolding k_def by (subst ys(1)) simp
  have cs: "c ! i = s ! i" if "i < n" for i using that unfolding c_def by simp
  have sk: "s ! k = 32" using ck cs[OF kn] by simp
  have "take k c = b" unfolding k_def by (subst ys(1)) simp
  moreover have "take k c = take k s" unfolding c_def using kn by (simp add: min_def)
  ultimately have tk: "b = take k s" by simp
  have later: "s ! j \<noteq> 32" if j: "k < j" "j < n" "j < length s" for j
  proof -
    have "j - k - 1 < length ys" using j len lc by simp
    then have "ys ! (j - k - 1) \<in> set ys" by simp
    moreover have "c ! j = ys ! (j - k - 1)"
      unfolding k_def using j(1) by (subst ys(1)) (simp add: nth_append k_def nth_Cons')
    ultimately have "c ! j \<in> set ys" by simp
    then have "c ! j \<noteq> 32" using ys(2) by auto
    then show ?thesis using cs[OF j(2)] by simp
  qed
  have "before_last_space (take n s) = take k s" using tk unfolding b_def c_def .
  with kn ks sk later show ?thesis by blast
qed

text \<open>
  C3 (amended). For \<open>max_chars \<ge> 0\<close>, \<open>shorten\<close> first strips the text. A stripped
  text of at most \<open>max_chars\<close> code points is returned as it is. A longer one yields a
  prefix of the stripped text of at most \<open>max_chars + 1\<close> code points, free of trailing
  whitespace, followed by one ellipsis; when the first \<open>max_chars + 1\<close> code points
  contain a space, that prefix ends before the last such space and the whole result has at
  most \<open>max_chars + 1\<close> code points.
\<close>

theorem shorten_amended:
  assumes "0 \<le> max_chars"
  shows "(int (length (strip text)) \<le> max_chars \<longrightarrow> shorten text max_chars = strip text) \<and>
         (max_chars < int (length (strip text)) \<longrightarrow>
            (\<exists>body. shorten text max_chars = body @ [ellipsis] \<and>
               prefix body (strip text) \<and> int (length body) \<le> max_chars + 1 \<and>
               rstrip body = body \<and>
               (32 \<in> set (take (nat max_chars + 1) (strip text)) \<longrightarrow>
                  (\<exists>k \<le> nat max_chars. strip text ! k = 32 \<and>
                     (\<forall>j. k < j \<and> j \<le> nat max_chars \<longrightarrow> strip text ! j \<noteq> 32) \<and>
                     body = rstrip (take k (strip text))) \<and>
                  int (length (shorten text max_chars)) \<le> max_chars + 1)))"
proof (intro conjI impI)
  assume "int (length (strip text)) \<le> max_chars"
  then show "shorten text max_chars = strip text" by (simp add: shorten_def)
next
  assume long: "max_chars < int (length (strip text))"
  let ?s = "strip text"
  let ?n = "nat max_chars + 1"
  have pt: "py_take (max_chars + 1) ?s = take ?n ?s"
    using assms by (simp add: py_take_def nat_add_distrib)
  have n_le: "?n \<le> length ?s" using long assms by linarith
  show "\<exists>body. shorten text max_chars = body @ [ellipsis] \<and>
               prefix body ?s \<and> int (length body) \<le> max_chars + 1 \<and>
               rstrip body = body \<and>
               (32 \<in> set (take ?n ?s) \<longrightarrow>
                  (\<exists>k \<le> nat max_chars. ?s ! k = 32 \<and>
                     (\<forall>j. k < j \<and> j \<le> nat max_chars \<longrightarrow> ?s ! j \<noteq> 32) \<and>
                     body = rstrip (take k ?s)) \<and>
                  int (length (shorten text max_chars)) \<le> max_chars + 1)"
  proof (cases "32 \<in> set (take ?n ?s)")
    case False
    let ?b = "rstrip (take ?n ?s)"
    have r: "shorten text max_chars = ?b @ [ellipsis]"
      using long False pt by (simp add: shorten_def Let_def)
    have "prefix ?b (take ?n ?s)" by (rule rstrip_prefix)
    then have p: "prefix ?b ?s" using take_is_prefix prefix_order.trans by blast
    have "length ?b \<le> ?n" using rstrip_length[of "take ?n ?s"] by simp
    then have l: "int (length ?b) \<le> max_chars + 1" using assms by linarith
    show ?thesis using r p l False rstrip_idem by blast
  next
    case True
    obtain k where k: "k < ?n" "k < length ?s" "?s ! k = 32"
      "\<forall>j. k < j \<and> j < ?n \<and> j < length ?s \<longrightarrow> ?s ! j \<noteq> 32"
      "before_last_space (take ?n ?s) = take k ?s"
      using before_last_space_take[OF True] by blast
    let ?b = "rstrip (take k ?s)"
    have r: "shorten text max_chars = ?b @ [ellipsis]"
      using long True pt k(5) by (simp add: shorten_def Let_def)
    have "prefix ?b (take k ?s)" by (rule rstrip_prefix)
    then have p: "prefix ?b ?s" using take_is_prefix prefix_order.trans by blast
    have lb: "length ?b \<le> k" using rstrip_length[of "take k ?s"] by simp
    then have l: "int (length ?b) \<le> max_chars" using k(1) assms by linarith
    have kk: "k \<le> nat max_chars" using k(1) by simp
    have later: "\<forall>j. k < j \<and> j \<le> nat max_chars \<longrightarrow> ?s ! j \<noteq> 32"
      using k(4) n_le by simp
    have lr: "int (length (shorten text max_chars)) \<le> max_chars + 1"
      using r l by simp
    have "\<exists>k \<le> nat max_chars. ?s ! k = 32 \<and>
            (\<forall>j. k < j \<and> j \<le> nat max_chars \<longrightarrow> ?s ! j \<noteq> 32) \<and> ?b = rstrip (take k ?s)"
      using kk k(3) later by blast
    then show ?thesis using r p l lr rstrip_idem by (intro exI[of _ ?b]) simp
  qed
qed

text \<open>The amended statement at two inputs, one that fits and one that is cut at a space.\<close>

theorem shorten_amended_witness:
  "(0::int) \<le> 5 \<and> shorten (ustr '' ab '') 5 = ustr ''ab'' \<and>
   int (length (shorten (ustr ''abc def ghi'') 5)) \<le> 5 + 1"
proof -
  have h: "(0::int) \<le> 5" by simp
  have a: "strip (ustr '' ab '') = ustr ''ab''" by code_simp
  have la: "int (length (strip (ustr '' ab ''))) \<le> 5" by code_simp
  have lb: "5 < int (length (strip (ustr ''abc def ghi'')))" by code_simp
  have sp: "32 \<in> set (take (nat 5 + 1) (strip (ustr ''abc def ghi'')))" by code_simp
  have 1: "shorten (ustr '' ab '') 5 = ustr ''ab''"
    using shorten_amended[OF h, of "ustr '' ab ''"] la a by simp
  have 2: "int (length (shorten (ustr ''abc def ghi'') 5)) \<le> 5 + 1"
    using shorten_amended[OF h, of "ustr ''abc def ghi''"] lb sp by blast
  from h 1 2 show ?thesis by simp
qed

text \<open>
  C3 as stated fails twice: without a space in the cut the result has \<open>max_chars + 2\<close>
  code points, and a text that fits is returned stripped, not unchanged.
\<close>

theorem shorten_counterexample:
  "\<not> int (length (shorten (ustr ''abcdef'') 3)) \<le> 3 + 1 \<and>
   int (length (ustr '' a'')) \<le> 5 \<and> shorten (ustr '' a'') 5 \<noteq> ustr '' a''"
proof -
  have 1: "shorten (ustr ''abcdef'') 3 = ustr ''abcd'' @ [ellipsis]" by code_simp
  have 2: "shorten (ustr '' a'') 5 = ustr ''a''" by code_simp
  show ?thesis unfolding 1 2 by (simp add: ustr_def)
qed

section \<open>Digest parts\<close>

text \<open>
  C4 (amended). A list of at most one chunk is returned unchanged. A list of two or more
  chunks keeps its length and every chunk, the first one included, is prefixed with
  \<open>(i/total)\<close> and a newline, where \<open>i\<close> counts from 1.
\<close>

theorem prefix_parts_amended:
  "(length chunks \<le> 1 \<longrightarrow> prefix_parts chunks = chunks) \<and>
   (2 \<le> length chunks \<longrightarrow>
      length (prefix_parts chunks) = length chunks \<and>
      (\<forall>i < length chunks.
         prefix_parts chunks ! i =
           ustr ''('' @ dec (i + 1) @ ustr ''/'' @ dec (length chunks) @ ustr '')'' @ [10] @ chunks ! i))"
proof (intro conjI impI allI)
  assume "length chunks \<le> 1"
  then show "prefix_parts chunks = chunks" by (simp add: prefix_parts_def)
next
  assume "2 \<le> length chunks"
  then show "length (prefix_parts chunks) = length chunks" by (simp add: prefix_parts_def)
next
  fix i
  assume len: "2 \<le> length chunks" and i: "i < length chunks"
  have "zip [1 ..< Suc (length chunks)] chunks ! i = (i + 1, chunks ! i)"
    using i by (simp add: nth_zip del: upt_Suc)
  then show "prefix_parts chunks ! i =
           ustr ''('' @ dec (i + 1) @ ustr ''/'' @ dec (length chunks) @ ustr '')'' @ [10] @ chunks ! i"
    using len i by (simp add: prefix_parts_def part_label_def del: upt_Suc)
qed

text \<open>The amended statement on a single chunk and on two chunks.\<close>

theorem prefix_parts_amended_witness:
  "prefix_parts [ustr ''only''] = [ustr ''only''] \<and>
   prefix_parts [ustr ''a'', ustr ''b''] ! 0 = ustr ''(1/2)'' @ [10] @ ustr ''a'' \<and>
   prefix_parts [ustr ''a'', ustr ''b''] ! 1 = ustr ''(2/2)'' @ [10] @ ustr ''b''"
proof -
  have d1: "dec (Suc 0) = ustr ''1''" by code_simp
  have d2: "dec (Suc (Suc 0)) = ustr ''2''" by code_simp
  have 1: "prefix_parts [ustr ''only''] = [ustr ''only'']"
    using prefix_parts_amended[of "[ustr ''only'']"] by simp
  have 2: "prefix_parts [ustr ''a'', ustr ''b''] ! 0 = ustr ''(1/2)'' @ [10] @ ustr ''a''"
    using prefix_parts_amended[of "[ustr ''a'', ustr ''b'']"] d1 d2 by (simp add: ustr_def)
  have 3: "prefix_parts [ustr ''a'', ustr ''b''] ! 1 = ustr ''(2/2)'' @ [10] @ ustr ''b''"
    using prefix_parts_amended[of "[ustr ''a'', ustr ''b'']"] d2 by (simp add: ustr_def)
  from 1 2 3 show ?thesis by simp
qed

text \<open>
  C4 as stated fails: with two chunks the first one is not emitted without a marker, it
  carries \<open>(1/2)\<close>.
\<close>

theorem prefix_parts_counterexample:
  "hd (prefix_parts [ustr ''a'', ustr ''b'']) = ustr ''(1/2)'' @ [10] @ ustr ''a'' \<and>
   hd (prefix_parts [ustr ''a'', ustr ''b'']) \<noteq> ustr ''a''"
proof -
  have 1: "prefix_parts [ustr ''a'', ustr ''b''] =
      [ustr ''(1/2)'' @ [10] @ ustr ''a'', ustr ''(2/2)'' @ [10] @ ustr ''b'']" by code_simp
  show ?thesis unfolding 1 by (simp add: ustr_def)
qed

section \<open>URL wrapping keeps every character\<close>

lemma lstrip_nospace: "\<forall>c\<in>set s. \<not> isspace c \<Longrightarrow> lstrip s = s"
  unfolding lstrip_def by (cases s) simp_all

lemma rstrip_nospace: "\<forall>c\<in>set s. \<not> isspace c \<Longrightarrow> rstrip s = s"
proof -
  assume a: "\<forall>c\<in>set s. \<not> isspace c"
  then have "dropWhile isspace (rev s) = rev s" by (cases "rev s") (simp, metis dropWhile.simps(2) list.set_intros(1) set_rev)
  then show ?thesis unfolding rstrip_def by simp
qed

lemma strip_nospace: "\<forall>c\<in>set s. \<not> isspace c \<Longrightarrow> strip s = s"
  unfolding strip_def by (simp add: lstrip_nospace rstrip_nospace)

lemma strip_allspace: "\<forall>c\<in>set s. isspace c \<Longrightarrow> strip s = []"
proof -
  assume "\<forall>c\<in>set s. isspace c"
  then have "lstrip s = []" unfolding lstrip_def by (simp add: dropWhile_eq_Nil_conv)
  then show ?thesis unfolding strip_def rstrip_def by simp
qed

lemma wrap_step_keeps:
  assumes "\<forall>c\<in>set (cur st). \<not> isspace c" and "\<not> isspace ch"
  shows "concat (lines (wrap_step width max_width st ch)) @ cur (wrap_step width max_width st ch)
           = concat (lines st) @ cur st @ [ch] \<and>
         (\<forall>c\<in>set (cur (wrap_step width max_width st ch)). \<not> isspace c)"
proof -
  define cand where "cand = cur st @ [ch]"
  define pos where "pos = (if is_break_char ch then int (length cand) else last_break_pos st)"
  show ?thesis
  proof (cases "width cand \<le> max_width")
    case True
    then show ?thesis using assms by (simp add: wrap_step_def Let_def cand_def)
  next
    case nofit: False
    show ?thesis
    proof (cases "pos > 0")
      case True
      define n where "n = nat pos"
      have tk: "py_take pos (cur st) = take n (cur st)" and dr: "py_drop pos (cur st) = drop n (cur st)"
        using True by (simp_all add: py_take_def py_drop_def n_def)
      have nt: "\<forall>c\<in>set (take n (cur st)). \<not> isspace c" using assms(1) by (meson in_set_takeD)
      have nd: "\<forall>c\<in>set (drop n (cur st)). \<not> isspace c" using assms(1) by (meson in_set_dropD)
      have rt: "rstrip (take n (cur st)) = take n (cur st)" by (rule rstrip_nospace[OF nt])
      have ld: "lstrip (drop n (cur st)) = drop n (cur st)" by (rule lstrip_nospace[OF nd])
      have l: "lines (wrap_step width max_width st ch) = lines st @ [take n (cur st)]"
        using nofit True by (simp add: wrap_step_def Let_def cand_def[symmetric] pos_def[symmetric] tk rt)
      have c: "cur (wrap_step width max_width st ch) = drop n (cur st) @ [ch]"
        using nofit True by (simp add: wrap_step_def Let_def cand_def[symmetric] pos_def[symmetric] dr ld)
      show ?thesis unfolding l c using nd assms(2) by simp
    next
      case False
      then show ?thesis using nofit assms unfolding cand_def pos_def
        by (simp add: wrap_step_def Let_def)
    qed
  qed
qed

lemma wrap_loop_keeps:
  assumes "\<forall>c\<in>set (cur st). \<not> isspace c" and "\<forall>c\<in>set url. \<not> isspace c"
  shows "concat (lines (wrap_loop width max_width st url)) @ cur (wrap_loop width max_width st url)
           = concat (lines st) @ cur st @ url"
  using assms
proof (induction url arbitrary: st)
  case Nil
  then show ?case by simp
next
  case (Cons ch url)
  let ?st = "wrap_step width max_width st ch"
  have ch: "\<not> isspace ch" and rest: "\<forall>c\<in>set url. \<not> isspace c" using Cons.prems(2) by simp_all
  have k: "concat (lines ?st) @ cur ?st = concat (lines st) @ cur st @ [ch]"
    and n: "\<forall>c\<in>set (cur ?st). \<not> isspace c"
    using wrap_step_keeps[OF Cons.prems(1) ch] by blast+
  have "concat (lines (wrap_loop width max_width ?st url)) @ cur (wrap_loop width max_width ?st url)
          = concat (lines ?st) @ cur ?st @ url"
    by (rule Cons.IH[OF n rest])
  also have "\<dots> = (concat (lines st) @ cur st @ [ch]) @ url" using k by simp
  finally show ?case by simp
qed

text \<open>
  C10. For a URL without whitespace, whatever the width function and the width budget,
  the lines returned by \<open>wrap_url_smart\<close> concatenate to the URL itself; an empty or
  whitespace-only URL gives no lines.
\<close>

theorem wrap_url_smart_concat:
  "((\<forall>c\<in>set url. \<not> isspace c) \<longrightarrow> concat (wrap_url_smart width url max_width) = url) \<and>
   ((\<forall>c\<in>set url. isspace c) \<longrightarrow> wrap_url_smart width url max_width = [])"
proof (intro conjI impI)
  assume ns: "\<forall>c\<in>set url. \<not> isspace c"
  let ?init = "\<lparr>lines = [], cur = [], last_break_pos = - 1\<rparr>"
  let ?st = "wrap_loop width max_width ?init url"
  have s: "strip url = url" by (rule strip_nospace[OF ns])
  have inv: "concat (lines ?st) @ cur ?st = url"
    using wrap_loop_keeps[where st = ?init and url = url and width = width and max_width = max_width] ns by simp
  show "concat (wrap_url_smart width url max_width) = url"
  proof (cases "url = []")
    case True
    then show ?thesis using s by (simp add: wrap_url_smart_def)
  next
    case False
    then show ?thesis using inv by (cases "cur ?st = []") (simp_all add: wrap_url_smart_def s Let_def)
  qed
next
  assume "\<forall>c\<in>set url. isspace c"
  then show "wrap_url_smart width url max_width = []"
    by (simp add: wrap_url_smart_def strip_allspace)
qed

text \<open>
  The statement at a URL measured at one unit per character with a budget of 10, where
  the wrapper breaks after \<open>.\<close> and \<open>/\<close>, and at a URL of two spaces.
\<close>

theorem wrap_url_smart_concat_witness:
  "wrap_url_smart (\<lambda>s. real (length s)) (ustr ''https://a.example/path?x=1'') 10 =
     [ustr ''https://a.'', ustr ''example/'', ustr ''path?x=1''] \<and>
   concat (wrap_url_smart (\<lambda>s. real (length s)) (ustr ''https://a.example/path?x=1'') 10) =
     ustr ''https://a.example/path?x=1'' \<and>
   wrap_url_smart (\<lambda>s. real (length s)) (ustr ''  '') 10 = []"
proof -
  have ev: "wrap_url_smart (\<lambda>s. real (length s)) (ustr ''https://a.example/path?x=1'') 10 =
     [ustr ''https://a.'', ustr ''example/'', ustr ''path?x=1'']" by code_simp
  have ns: "\<forall>c\<in>set (ustr ''https://a.example/path?x=1''). \<not> isspace c"
    by (simp add: ustr_def isspace_def)
  have sp: "\<forall>c\<in>set (ustr ''  ''). isspace c"
    by (simp add: ustr_def isspace_def)
  have 1: "concat (wrap_url_smart (\<lambda>s. real (length s)) (ustr ''https://a.example/path?x=1'') 10) =
     ustr ''https://a.example/path?x=1''"
    using wrap_url_smart_concat[of "ustr ''https://a.example/path?x=1''" "\<lambda>s. real (length s)" 10] ns
    by blast
  have 2: "wrap_url_smart (\<lambda>s. real (length s)) (ustr ''  '') 10 = []"
    using wrap_url_smart_concat[of "ustr ''  ''" "\<lambda>s. real (length s)" 10] sp by blast
  from ev 1 2 show ?thesis by simp
qed

section \<open>Classifier precedence\<close>

text \<open>
  C9. Over the lowercased text of title, a space and summary, \<open>classify\<close> follows the
  precedence chain: ZERO-DAYS exactly when a zero-day-family term occurs; RANSOMWARE exactly
  when none does and \<open>ransomware\<close> occurs; BREACHES exactly when neither holds and a breach
  term occurs; PHISHING exactly when none of these holds and \<open>phishing\<close> occurs; OTHER
  exactly when no term occurs. In particular a text with \<open>ransomware\<close> and \<open>breach\<close> and
  no zero-day-family term is RANSOMWARE, and every article gets exactly one category.
\<close>

theorem classify_precedence:
  "let text = lower (title item @ ustr '' '' @ summary item);
       zd = (contains (ustr ''zero-day'') text \<or> contains (ustr ''zero day'') text \<or>
             contains (ustr ''0day'') text \<or> contains (ustr ''actively exploited'') text);
       rw = contains (ustr ''ransomware'') text;
       br = (contains (ustr ''breach'') text \<or> contains (ustr ''data breach'') text);
       ph = contains (ustr ''phishing'') text
   in (classify item = ZERO_DAYS \<longleftrightarrow> zd) \<and>
      (classify item = RANSOMWARE \<longleftrightarrow> \<not> zd \<and> rw) \<and>
      (classify item = BREACHES \<longleftrightarrow> \<not> zd \<and> \<not> rw \<and> br) \<and>
      (classify item = PHISHING \<longleftrightarrow> \<not> zd \<and> \<not> rw \<and> \<not> br \<and> ph) \<and>
      (classify item = OTHER \<longleftrightarrow> \<not> zd \<and> \<not> rw \<and> \<not> br \<and> \<not> ph) \<and>
      (rw \<and> contains (ustr ''breach'') text \<and> \<not> zd \<longrightarrow> classify item = RANSOMWARE) \<and>
      (\<exists>!c. classify item = c)"
  unfolding classify_def Let_def by simp

text \<open>The example article contains both terms, in mixed case, and is RANSOMWARE.\<close>

theorem classify_precedence_witness:
  "contains (ustr ''ransomware'') (lower (title example_item @ ustr '' '' @ summary example_item)) \<and>
   contains (ustr ''breach'') (lower (title example_item @ ustr '' '' @ summary example_item)) \<and>
   classify example_item = RANSOMWARE"
proof -
  let ?t = "lower (title example_item @ ustr '' '' @ summary example_item)"
  have rw: "contains (ustr ''ransomware'') ?t = True" by code_simp
  have br: "contains (ustr ''breach'') ?t = True" by code_simp
  have z1: "contains (ustr ''zero-day'') ?t = False" by code_simp
  have z2: "contains (ustr ''zero day'') ?t = False" by code_simp
  have z3: "contains (ustr ''0day'') ?t = False" by code_simp
  have z4: "contains (ustr ''actively exploited'') ?t = False" by code_simp
  have "classify example_item = RANSOMWARE"
    using classify_precedence[of example_item] rw br z1 z2 z3 z4
    unfolding Let_def by simp
  with rw br show ?thesis by simp
qed

section \<open>Ellipsis truncation finds the longest fitting prefix\<close>

lemma rstrip_append_prefix: "prefix (rstrip a) (rstrip (a @ t))"
proof (cases "\<forall>x\<in>set t. isspace x")
  case True
  then have "dropWhile isspace (rev t @ rev a) = dropWhile isspace (rev a)"
    by (intro dropWhile_append2) simp
  then show ?thesis unfolding rstrip_def by simp
next
  case False
  then obtain x where x: "x \<in> set (rev t)" "\<not> isspace x" by auto
  have "dropWhile isspace (rev t @ rev a) = dropWhile isspace (rev t) @ rev a"
    using x by (simp add: dropWhile_append1)
  then have "rstrip (a @ t) = a @ rstrip t" unfolding rstrip_def by simp
  moreover have "prefix (rstrip a) a" by (rule rstrip_prefix)
  ultimately show ?thesis by (metis prefix_prefix)
qed

lemma rstrip_take_mono:
  assumes "k \<le> k'"
  shows "prefix (rstrip (take k s)) (rstrip (take k' s))"
proof -
  have "take k' s = take k s @ take (k' - k) (drop k s)"
    using assms by (metis le_add_diff_inverse take_add)
  then show ?thesis using rstrip_append_prefix by metis
qed

lemma ell_cand_mono:
  assumes "0 \<le> k" "k \<le> k'"
  shows "prefix (rstrip (py_take k text)) (rstrip (py_take k' text))"
  using assms rstrip_take_mono[of "nat k" "nat k'" "text"] by (simp add: py_take_def)

text \<open>
  The search ends with a boundary \<open>L\<close>: every shorter prefix length fits, no prefix length
  from \<open>L\<close> on fits, and \<open>best\<close> is the candidate of length \<open>L - 1\<close>, or empty when \<open>L = 0\<close>.
\<close>

lemma ellipsize_search_result:
  assumes mono: "\<forall>a b. prefix a b \<longrightarrow> width (a @ [ellipsis]) \<le> width (b @ [ellipsis])"
    and "0 \<le> lo" and "lo \<le> hi + 1" and "hi \<le> n"
    and "\<forall>k. 0 \<le> k \<and> k < lo \<longrightarrow> width (ell_cand text k) \<le> max_width"
    and "\<forall>k. hi < k \<and> k \<le> n \<longrightarrow> \<not> width (ell_cand text k) \<le> max_width"
    and "best = (if lo = 0 then [] else ell_cand text (lo - 1))"
  shows "\<exists>L. 0 \<le> L \<and> L \<le> n + 1 \<and>
           (\<forall>k. 0 \<le> k \<and> k < L \<longrightarrow> width (ell_cand text k) \<le> max_width) \<and>
           (\<forall>k. L \<le> k \<and> k \<le> n \<longrightarrow> \<not> width (ell_cand text k) \<le> max_width) \<and>
           ellipsize_search width max_width text lo hi best =
             (if L = 0 then [] else ell_cand text (L - 1))"
  using assms
proof (induction width max_width "text" lo hi best rule: ellipsize_search.induct)
  case (1 width max_width "text" lo hi best)
  show ?case
  proof (cases "lo \<le> hi")
    case False
    then have lo: "lo = hi + 1" using "1.prems"(3) by simp
    have r: "ellipsize_search width max_width text lo hi best = best"
      using False by (subst ellipsize_search.simps) simp
    show ?thesis
      using "1.prems"(2-) lo r by (intro exI[of _ lo]) auto
  next
    case True
    define mid where "mid = (lo + hi) div 2"
    have midb: "lo \<le> mid" "mid \<le> hi" using True unfolding mid_def by linarith+
    show ?thesis
    proof (cases "width (ell_cand text mid) \<le> max_width")
      case fits: True
      have r: "ellipsize_search width max_width text lo hi best =
               ellipsize_search width max_width text (mid + 1) hi (ell_cand text mid)"
        using True fits
        by (subst ellipsize_search.simps) (simp add: Let_def mid_def ell_cand_def)
      have below: "\<forall>k. 0 \<le> k \<and> k < mid + 1 \<longrightarrow> width (ell_cand text k) \<le> max_width"
      proof (intro allI impI)
        fix k assume k: "0 \<le> k \<and> k < mid + 1"
        then have "prefix (rstrip (py_take k text)) (rstrip (py_take mid text))"
          using ell_cand_mono[of k mid "text"] by simp
        then have "width (ell_cand text k) \<le> width (ell_cand text mid)"
          using "1.prems"(1) unfolding ell_cand_def by blast
        then show "width (ell_cand text k) \<le> max_width" using fits by linarith
      qed
      have "\<exists>L. 0 \<le> L \<and> L \<le> n + 1 \<and>
           (\<forall>k. 0 \<le> k \<and> k < L \<longrightarrow> width (ell_cand text k) \<le> max_width) \<and>
           (\<forall>k. L \<le> k \<and> k \<le> n \<longrightarrow> \<not> width (ell_cand text k) \<le> max_width) \<and>
           ellipsize_search width max_width text (mid + 1) hi (ell_cand text mid) =
             (if L = 0 then [] else ell_cand text (L - 1))"
      proof (rule "1.IH"(1)[OF True mid_def])
        show "ell_cand text mid = rstrip (py_take mid text) @ [ellipsis]"
          by (simp add: ell_cand_def)
        show "width (ell_cand text mid) \<le> max_width" by (rule fits)
        show "\<forall>a b. prefix a b \<longrightarrow> width (a @ [ellipsis]) \<le> width (b @ [ellipsis])"
          by (rule "1.prems"(1))
        show "0 \<le> mid + 1" using "1.prems"(2) midb by simp
        show "mid + 1 \<le> hi + 1" using midb by simp
        show "hi \<le> n" by (rule "1.prems"(4))
        show "\<forall>k. 0 \<le> k \<and> k < mid + 1 \<longrightarrow> width (ell_cand text k) \<le> max_width" by (rule below)
        show "\<forall>k. hi < k \<and> k \<le> n \<longrightarrow> \<not> width (ell_cand text k) \<le> max_width"
          by (rule "1.prems"(6))
        show "ell_cand text mid = (if mid + 1 = 0 then [] else ell_cand text (mid + 1 - 1))"
          using "1.prems"(2) midb by simp
      qed
      then show ?thesis using r by simp
    next
      case nofit: False
      have r: "ellipsize_search width max_width text lo hi best =
               ellipsize_search width max_width text lo (mid - 1) best"
        using True nofit
        by (subst ellipsize_search.simps) (simp add: Let_def mid_def ell_cand_def)
      have above: "\<forall>k. mid - 1 < k \<and> k \<le> n \<longrightarrow> \<not> width (ell_cand text k) \<le> max_width"
      proof (intro allI impI)
        fix k assume k: "mid - 1 < k \<and> k \<le> n"
        have "0 \<le> mid" using "1.prems"(2) midb by simp
        then have "prefix (rstrip (py_take mid text)) (rstrip (py_take k text))"
          using ell_cand_mono[of mid k "text"] k by simp
        then have "width (ell_cand text mid) \<le> width (ell_cand text k)"
          using "1.prems"(1) unfolding ell_cand_def by blast
        then show "\<not> width (ell_cand text k) \<le> max_width" using nofit by linarith
      qed
      have "\<exists>L. 0 \<le> L \<and> L \<le> n + 1 \<and>
           (\<forall>k. 0 \<le> k \<and> k < L \<longrightarrow> width (ell_cand text k) \<le> max_width) \<and>
           (\<forall>k. L \<le> k \<and> k \<le> n \<longrightarrow> \<not> width (ell_cand text k) \<le> max_width) \<and>
           ellipsize_search width max_width text lo (mid - 1) best =
             (if L = 0 then [] else ell_cand text (L - 1))"
      proof (rule "1.IH"(2)[OF True mid_def])
        show "ell_cand text mid = rstrip (py_take mid text) @ [ellipsis]"
          by (simp add: ell_cand_def)
        show "\<not> width (ell_cand text mid) \<le> max_width" by (rule nofit)
        show "\<forall>a b. prefix a b \<longrightarrow> width (a @ [ellipsis]) \<le> width (b @ [ellipsis])"
          by (rule "1.prems"(1))
        show "0 \<le> lo" by (rule "1.prems"(2))
        show "lo \<le> mid - 1 + 1" using midb by simp
        show "mid - 1 \<le> n" using midb "1.prems"(4) by simp
        show "\<forall>k. 0 \<le> k \<and> k < lo \<longrightarrow> width (ell_cand text k) \<le> max_width"
          by (rule "1.prems"(5))
        show "\<forall>k. mid - 1 < k \<and> k \<le> n \<longrightarrow> \<not> width (ell_cand text k) \<le> max_width"
          by (rule above)
        show "best = (if lo = 0 then [] else ell_cand text (lo - 1))" by (rule "1.prems"(7))
      qed
      then show ?thesis using r by simp
    qed
  qed
qed

text \<open>
  A width that adds up non-negative advance widths, as the standard font metrics do,
  never shrinks when characters are inserted before the ellipsis.
\<close>

lemma additive_width_mono:
  assumes "\<forall>c. 0 \<le> cw c"
  shows "\<forall>a b. prefix a b \<longrightarrow>
           sum_list (map cw (a @ [ellipsis])) \<le> sum_list (map (cw :: int \<Rightarrow> real) (b @ [ellipsis]))"
proof (intro allI impI)
  fix a b :: str
  assume "prefix a b"
  then obtain t where b: "b = a @ t" by (auto simp: prefix_def)
  have "0 \<le> sum_list (map cw t)" using assms by (intro sum_list_nonneg) auto
  then show "sum_list (map cw (a @ [ellipsis])) \<le> sum_list (map cw (b @ [ellipsis]))"
    unfolding b by simp
qed

text \<open>
  C8. The width function is the PDF library's; it is assumed never to shrink when a
  prefix grows in front of the ellipsis. A text that fits is returned unchanged. A text
  that does not fit, while the bare ellipsis fits, gives a right-stripped prefix followed
  by the ellipsis whose width is within \<open>max_width\<close>, and no right-stripped prefix that
  fits with the ellipsis is longer. If even the bare ellipsis does not fit, the bare
  ellipsis is returned.
\<close>

theorem ellipsize_line_to_width_longest:
  assumes mono: "\<forall>a b. prefix a b \<longrightarrow> width (a @ [ellipsis]) \<le> width (b @ [ellipsis])"
  shows "(width text \<le> max_width \<longrightarrow> ellipsize_line_to_width width text max_width = text) \<and>
         (\<not> width text \<le> max_width \<and> width [ellipsis] \<le> max_width \<longrightarrow>
            (\<exists>m \<le> length text.
               ellipsize_line_to_width width text max_width = rstrip (take m text) @ [ellipsis] \<and>
               width (ellipsize_line_to_width width text max_width) \<le> max_width \<and>
               (\<forall>k \<le> length text.
                  width (rstrip (take k text) @ [ellipsis]) \<le> max_width \<longrightarrow>
                  length (rstrip (take k text)) \<le> length (rstrip (take m text))))) \<and>
         (\<not> width text \<le> max_width \<and> \<not> width [ellipsis] \<le> max_width \<longrightarrow>
            ellipsize_line_to_width width text max_width = [ellipsis])"
proof -
  define n where "n = int (length text)"
  have c0: "ell_cand text 0 = [ellipsis]" by (simp add: ell_cand_def py_take_def rstrip_def)
  have cne: "ell_cand text k \<noteq> []" for k by (simp add: ell_cand_def)
  obtain L where L: "0 \<le> L" "L \<le> n + 1"
    "\<forall>k. 0 \<le> k \<and> k < L \<longrightarrow> width (ell_cand text k) \<le> max_width"
    "\<forall>k. L \<le> k \<and> k \<le> n \<longrightarrow> \<not> width (ell_cand text k) \<le> max_width"
    "ellipsize_search width max_width text 0 n [] = (if L = 0 then [] else ell_cand text (L - 1))"
    using ellipsize_search_result[OF mono, of 0 n n "text" max_width "[]"] unfolding n_def by auto
  have res: "\<not> width text \<le> max_width \<Longrightarrow>
      ellipsize_line_to_width width text max_width =
        (if L = 0 then [ellipsis] else ell_cand text (L - 1))"
    using L(5) cne unfolding n_def by (simp add: ellipsize_line_to_width_def Let_def)
  show ?thesis
  proof (intro conjI impI)
    assume "width text \<le> max_width"
    then show "ellipsize_line_to_width width text max_width = text"
      by (simp add: ellipsize_line_to_width_def)
  next
    assume a: "\<not> width text \<le> max_width \<and> \<not> width [ellipsis] \<le> max_width"
    have "L = 0"
    proof (rule ccontr)
      assume "L \<noteq> 0"
      then have "width (ell_cand text 0) \<le> max_width" using L(1,3) by simp
      then show False using a c0 by simp
    qed
    then show "ellipsize_line_to_width width text max_width = [ellipsis]" using res a by simp
  next
    assume a: "\<not> width text \<le> max_width \<and> width [ellipsis] \<le> max_width"
    have Lpos: "0 < L"
    proof (rule ccontr)
      assume "\<not> 0 < L"
      then have "L = 0" using L(1) by simp
      then have "\<not> width (ell_cand text 0) \<le> max_width" using L(4) unfolding n_def by simp
      then show False using a c0 by simp
    qed
    define m where "m = nat (L - 1)"
    have mL: "int m = L - 1" using Lpos unfolding m_def by simp
    have mn: "m \<le> length text" using L(2) mL unfolding n_def by linarith
    have cm: "ell_cand text (L - 1) = rstrip (take m text) @ [ellipsis]"
      using Lpos unfolding ell_cand_def py_take_def m_def by simp
    have r: "ellipsize_line_to_width width text max_width = rstrip (take m text) @ [ellipsis]"
      using res a Lpos cm by simp
    have w: "width (ellipsize_line_to_width width text max_width) \<le> max_width"
      using L(3) Lpos res a by simp
    have mx: "\<forall>k \<le> length text.
                  width (rstrip (take k text) @ [ellipsis]) \<le> max_width \<longrightarrow>
                  length (rstrip (take k text)) \<le> length (rstrip (take m text))"
    proof (intro allI impI)
      fix k assume k: "k \<le> length text"
        and f: "width (rstrip (take k text) @ [ellipsis]) \<le> max_width"
      have "ell_cand text (int k) = rstrip (take k text) @ [ellipsis]"
        by (simp add: ell_cand_def py_take_def)
      then have "width (ell_cand text (int k)) \<le> max_width" using f by simp
      then have "\<not> (L \<le> int k \<and> int k \<le> n)" using L(4) by blast
      then have "int k < L" using k unfolding n_def by simp
      then have "k \<le> m" using mL by linarith
      then have "prefix (rstrip (take k text)) (rstrip (take m text))" by (rule rstrip_take_mono)
      then show "length (rstrip (take k text)) \<le> length (rstrip (take m text))"
        by (rule prefix_length_le)
    qed
    show "\<exists>m \<le> length text.
               ellipsize_line_to_width width text max_width = rstrip (take m text) @ [ellipsis] \<and>
               width (ellipsize_line_to_width width text max_width) \<le> max_width \<and>
               (\<forall>k \<le> length text.
                  width (rstrip (take k text) @ [ellipsis]) \<le> max_width \<longrightarrow>
                  length (rstrip (take k text)) \<le> length (rstrip (take m text)))"
      using mn r w mx by blast
  qed
qed

text \<open>
  The statement with one unit of width per character: a text that fits, a text cut to
  width 8, and a budget below the width of the ellipsis.
\<close>

theorem ellipsize_line_to_width_longest_witness:
  "ellipsize_line_to_width (\<lambda>s. real (length s)) (ustr ''short'') 8 = ustr ''short'' \<and>
   ellipsize_line_to_width (\<lambda>s. real (length s)) (ustr ''a very long string'') 8 =
     ustr ''a very'' @ [ellipsis] \<and>
   real (length (ellipsize_line_to_width (\<lambda>s. real (length s)) (ustr ''a very long string'') 8)) \<le> 8 \<and>
   ellipsize_line_to_width (\<lambda>s. real (length s)) (ustr ''a very long string'') (1 / 2) = [ellipsis]"
proof -
  have mono: "\<forall>a b. prefix a b \<longrightarrow>
      real (length (a @ [ellipsis])) \<le> real (length (b @ [ellipsis]))"
    by (simp add: prefix_length_le)
  note t = ellipsize_line_to_width_longest[of "\<lambda>s. real (length s)", OF mono]
  have f: "real (length (ustr ''short'')) \<le> 8" by (simp add: ustr_def)
  have nf8: "\<not> real (length (ustr ''a very long string'')) \<le> 8" by (simp add: ustr_def)
  have fe8: "real (length [ellipsis]) \<le> 8" by simp
  have nfh: "\<not> real (length (ustr ''a very long string'')) \<le> 1 / 2" by (simp add: ustr_def)
  have feh: "\<not> real (length [ellipsis]) \<le> 1 / 2" by simp
  have 1: "ellipsize_line_to_width (\<lambda>s. real (length s)) (ustr ''short'') 8 = ustr ''short''"
    using t[of "ustr ''short''" 8] f by blast
  have ev: "ellipsize_line_to_width (\<lambda>s. real (length s)) (ustr ''a very long string'') 8 =
     ustr ''a very'' @ [ellipsis]" by code_simp
  have 2: "real (length (ellipsize_line_to_width (\<lambda>s. real (length s)) (ustr ''a very long string'') 8)) \<le> 8"
    using t[of "ustr ''a very long string''" 8] nf8 fe8 by blast
  have 3: "ellipsize_line_to_width (\<lambda>s. real (length s)) (ustr ''a very long string'') (1 / 2) = [ellipsis]"
    using t[of "ustr ''a very long string''" "1 / 2"] nfh feh by blast
  from 1 ev 2 3 show ?thesis by simp
qed

section \<open>When the layout engine opens a page\<close>

text \<open>
  C2 (amended). Say that a block fits in a column when the column's cursor minus the
  block's height is at least \<open>bottom\<close>. \<open>ensure_room\<close> opens a new page exactly when the
  block does not fit in the active column and it is not the case that the active column is
  the first one and the block fits in the second: from the second column the first one is
  never tried. Without a new page the cursors are unchanged and the block fits in the
  column that is active afterwards, which is the same column if the block fitted there
  and the second column otherwise. With a new page both cursors are reset to \<open>top\<close> and the
  first column becomes active.
\<close>

theorem ensure_room_amended:
  "let fits = (\<lambda>i. col_y s ! i - need \<ge> bottom);
       opens = (\<not> fits (current_col s) \<and> \<not> (current_col s = 0 \<and> fits 1));
       s' = ensure_room s need
   in page_num s' = (if opens then page_num s + 1 else page_num s) \<and>
      (\<not> opens \<longrightarrow>
         col_y s' = col_y s \<and> fits (current_col s') \<and>
         (fits (current_col s) \<longrightarrow> current_col s' = current_col s) \<and>
         (\<not> fits (current_col s) \<longrightarrow> current_col s' = 1)) \<and>
      (opens \<longrightarrow> current_col s' = 0 \<and> col_y s' = (col_y s)[0 := top, 1 := top])"
  unfolding Let_def ensure_room_def new_page_def by simp

text \<open>The cursor state after three short and four full cards of one section.\<close>

lemma seven_cards_state:
  "place_items layout_start seven_cards =
     \<lparr>col_y = [226.08, 172.56], current_col = 1, page_num = 2, last_sec = Some OTHER\<rparr>"
  by code_simp

text \<open>
  The amended statement at three states: the start of the layout (no page opened), the
  state reached after the seven cards with a card pending (a page is opened), and a
  state with a nearly full first column (the second column takes over).
\<close>

theorem ensure_room_amended_witness:
  "page_num (ensure_room layout_start (0.60 * inch)) = page_num layout_start \<and>
   page_num (ensure_room \<lparr>col_y = [226.08, 172.56], current_col = 1, page_num = 2,
       last_sec = Some OTHER\<rparr> (1.75 * inch)) = 3 \<and>
   current_col (ensure_room \<lparr>col_y = [50, 226.08], current_col = 0, page_num = 2,
       last_sec = Some OTHER\<rparr> (1.75 * inch)) = 1"
proof -
  have 1: "page_num (ensure_room layout_start (0.60 * inch)) = page_num layout_start"
    using ensure_room_amended[of layout_start "0.60 * inch"]
    unfolding Let_def by (simp add: layout_start_def top_def bottom_def margin_def inch_def)
  have 2: "page_num (ensure_room \<lparr>col_y = [226.08, 172.56], current_col = 1, page_num = 2,
       last_sec = Some OTHER\<rparr> (1.75 * inch)) = 3"
    using ensure_room_amended[of "\<lparr>col_y = [226.08, 172.56], current_col = 1, page_num = 2,
       last_sec = Some OTHER\<rparr>" "1.75 * inch"]
    unfolding Let_def by (simp add: bottom_def inch_def)
  have 3: "current_col (ensure_room \<lparr>col_y = [50, 226.08], current_col = 0, page_num = 2,
       last_sec = Some OTHER\<rparr> (1.75 * inch)) = 1"
    using ensure_room_amended[of "\<lparr>col_y = [50, 226.08], current_col = 0, page_num = 2,
       last_sec = Some OTHER\<rparr>" "1.75 * inch"]
    unfolding Let_def by (simp add: bottom_def inch_def)
  from 1 2 3 show ?thesis by simp
qed

text \<open>
  C2 as stated fails on a reachable state: after the seven cards the second column is
  active and cannot take a card, the first column still can, and the engine opens page 2
  for the eighth card.
\<close>

theorem ensure_room_counterexample:
  "col_y (place_items layout_start seven_cards) ! 0 - 1.75 * inch \<ge> bottom \<and>
   page_num (place_items layout_start seven_cards) = 2 \<and>
   page_num (ensure_room (place_items layout_start seven_cards) (1.75 * inch)) = 3 \<and>
   page_num (place_items layout_start (seven_cards @ [(OTHER, full_card)])) = 3"
proof -
  have 8: "place_items layout_start (seven_cards @ [(OTHER, full_card)]) =
     \<lparr>col_y = [453.36, 572.4], current_col = 1, page_num = 3, last_sec = Some OTHER\<rparr>"
    by code_simp
  show ?thesis unfolding seven_cards_state 8
    by (simp add: ensure_room_def new_page_def bottom_def inch_def)
qed

section \<open>The score falls with age\<close>

lemma round_half_even_bounds:
  "of_int \<lfloor>x\<rfloor> \<le> (of_int (round_half_even x) :: real) \<and> round_half_even x \<le> \<lfloor>x\<rfloor> + 1"
  unfolding round_half_even_def Let_def by simp

lemma round_half_even_mono:
  assumes "x \<le> y"
  shows "round_half_even x \<le> round_half_even y"
proof (cases "\<lfloor>x\<rfloor> = \<lfloor>y\<rfloor>")
  case True
  then show ?thesis using assms unfolding round_half_even_def Let_def by auto
next
  case False
  have "\<lfloor>x\<rfloor> \<le> \<lfloor>y\<rfloor>" using assms by (rule floor_mono)
  then have "\<lfloor>x\<rfloor> + 1 \<le> \<lfloor>y\<rfloor>" using False by simp
  moreover have "round_half_even x \<le> \<lfloor>x\<rfloor> + 1" using round_half_even_bounds by blast
  moreover have "\<lfloor>y\<rfloor> \<le> round_half_even y" using round_half_even_bounds[of y] by simp
  ultimately show ?thesis by linarith
qed

lemma round1_mono: "x \<le> y \<Longrightarrow> round1 x \<le> round1 y"
  unfolding round1_def using round_half_even_mono[of "x * 10" "y * 10"]
  by (simp add: divide_right_mono)

lemma recency_score_mono:
  assumes "h1 \<le> h2" and "recency_score cfg h2 = Inr r2"
  shows "\<exists>r1. recency_score cfg h1 = Inr r1 \<and> r2 \<le> r1"
proof -
  define m where "m = real_of_int (max 1 (lookback_hours cfg))"
  define sp where "sp = max 2 (m / 4)"
  have sp: "0 < sp" unfolding sp_def by simp
  define x1 where "x1 = (h1 - m) / sp"
  define x2 where "x2 = (h2 - m) / sp"
  have x: "x1 \<le> x2" unfolding x1_def x2_def using assms(1) sp by (simp add: divide_right_mono)
  then have e: "exp x1 \<le> exp x2" by simp
  have r2: "recency_score cfg h2 = (case math_exp x2 of Inl e \<Rightarrow> Inl e | Inr ex \<Rightarrow> Inr (30 / (1 + ex)))"
    unfolding recency_score_def Let_def m_def sp_def x2_def by simp
  have r1: "recency_score cfg h1 = (case math_exp x1 of Inl e \<Rightarrow> Inl e | Inr ex \<Rightarrow> Inr (30 / (1 + ex)))"
    unfolding recency_score_def Let_def m_def sp_def x1_def by simp
  have no2: "\<not> exp x2 > max_float" and v2: "r2 = 30 / (1 + exp x2)"
    using assms(2) unfolding r2 math_exp_def by (auto split: if_splits)
  have no1: "\<not> exp x1 > max_float" using no2 e by linarith
  have v1: "recency_score cfg h1 = Inr (30 / (1 + exp x1))"
    unfolding r1 math_exp_def using no1 by simp
  have "0 < 1 + exp x1" by (simp add: add_pos_pos)
  then have "30 / (1 + exp x2) \<le> 30 / (1 + exp x1)"
    using e by (intro divide_left_mono) (simp_all add: add_pos_pos)
  then show ?thesis using v1 v2 by simp
qed

lemma recency_score_defined:
  assumes "h \<le> real_of_int (max 1 (lookback_hours cfg))"
  shows "\<exists>r. recency_score cfg h = Inr r"
proof -
  define m where "m = real_of_int (max 1 (lookback_hours cfg))"
  define sp where "sp = max 2 (m / 4)"
  have sp: "0 < sp" unfolding sp_def by simp
  have "(h - m) / sp \<le> 0" using assms sp unfolding m_def by (simp add: divide_le_0_iff)
  then have "exp ((h - m) / sp) \<le> 1" by simp
  moreover have "(1::real) \<le> max_float"
  proof -
    have "(2::real) ^ 971 * 2 \<le> 2 ^ 971 * 2 ^ 53" by (intro mult_left_mono) simp_all
    then have "(2::real) ^ 971 + 2 ^ 971 \<le> 2 ^ 1024" by (simp add: power_add[symmetric])
    moreover have "(1::real) \<le> 2 ^ 971" by (rule one_le_power) simp
    ultimately show ?thesis unfolding max_float_def by linarith
  qed
  ultimately have "\<not> exp ((h - m) / sp) > max_float" by linarith
  then show ?thesis unfolding recency_score_def Let_def math_exp_def m_def sp_def by simp
qed

lemma compute_score_defined:
  assumes "hours_old now a \<le> real_of_int (max 1 (lookback_hours cfg))"
  shows "\<exists>s. compute_score cfg now a = Inr s"
proof -
  obtain r where "recency_score cfg (hours_old now a) = Inr r"
    using recency_score_defined[OF assms] by blast
  then show ?thesis unfolding compute_score_def Let_def by simp
qed

text \<open>
  C7. Two articles with the same title, summary and source are scored at the same clock
  reading; the second is at least as old as the first. If the older one gets a score, so
  does the newer one, and the older one's score is not higher: the clamp \<open>max(0, recency)\<close>
  and the rounding to one decimal keep the order. An article no older than the lookback
  midpoint always gets a score (beyond it \<open>math.exp\<close> can overflow for very old articles).
\<close>

theorem compute_score_monotone:
  assumes "title a1 = title a2" and "summary a1 = summary a2" and "source a1 = source a2"
    and "published a2 \<le> published a1"
  shows "(\<forall>s2. compute_score cfg now a2 = Inr s2 \<longrightarrow>
            (\<exists>s1. compute_score cfg now a1 = Inr s1 \<and> s2 \<le> s1)) \<and>
         (hours_old now a2 \<le> real_of_int (max 1 (lookback_hours cfg)) \<longrightarrow>
            (\<exists>s2. compute_score cfg now a2 = Inr s2))"
proof (intro conjI allI impI)
  fix s2 assume c2: "compute_score cfg now a2 = Inr s2"
  define base where "base = min (keyword_score (lower (title a2 @ ustr '' '' @ summary a2)))
      (of_int (max_keyword_score cfg)) + of_int (source_weight (source a2))"
  have h: "hours_old now a1 \<le> hours_old now a2"
    unfolding hours_old_def using assms(4) by (simp add: divide_right_mono)
  obtain r2 where r2: "recency_score cfg (hours_old now a2) = Inr r2"
    and s2: "s2 = round1 (base + max 0 r2)"
    using c2 unfolding compute_score_def Let_def base_def by (auto split: sum.splits)
  obtain r1 where r1: "recency_score cfg (hours_old now a1) = Inr r1" and le: "r2 \<le> r1"
    using recency_score_mono[OF h r2] by blast
  have c1: "compute_score cfg now a1 = Inr (round1 (base + max 0 r1))"
    unfolding compute_score_def Let_def base_def using r1 assms(1-3) by simp
  have "base + max 0 r2 \<le> base + max 0 r1" using le by simp
  then have "s2 \<le> round1 (base + max 0 r1)" unfolding s2 by (rule round1_mono)
  then show "\<exists>s1. compute_score cfg now a1 = Inr s1 \<and> s2 \<le> s1" using c1 by simp
next
  assume "hours_old now a2 \<le> real_of_int (max 1 (lookback_hours cfg))"
  then obtain r where "recency_score cfg (hours_old now a2) = Inr r"
    using recency_score_defined by blast
  then show "\<exists>s2. compute_score cfg now a2 = Inr s2"
    unfolding compute_score_def Let_def by simp
qed

text \<open>
  The statement for the example article seen one hour and two hours after publication,
  with the default settings: both scores exist and the older one is not higher.
\<close>

theorem compute_score_monotone_witness:
  "\<exists>s1 s2. compute_score default_config 7200 (example_item\<lparr>published := 3600\<rparr>) = Inr s1 \<and>
     compute_score default_config 7200 example_item = Inr s2 \<and> s2 \<le> s1"
proof -
  have p: "published example_item \<le> published (example_item\<lparr>published := 3600\<rparr>)"
    by (simp add: example_item_def)
  have h: "hours_old 7200 example_item \<le> real_of_int (max 1 (lookback_hours default_config))"
    by (simp add: hours_old_def example_item_def default_config_def)
  note t = compute_score_monotone[of "example_item\<lparr>published := 3600\<rparr>" example_item,
      OF _ _ _ p, of default_config 7200]
  have t': "(\<forall>s2. compute_score default_config 7200 example_item = Inr s2 \<longrightarrow>
            (\<exists>s1. compute_score default_config 7200 (example_item\<lparr>published := 3600\<rparr>) = Inr s1 \<and> s2 \<le> s1)) \<and>
         (hours_old 7200 example_item \<le> real_of_int (max 1 (lookback_hours default_config)) \<longrightarrow>
            (\<exists>s2. compute_score default_config 7200 example_item = Inr s2))"
    by (rule t) simp_all
  then obtain s2 where s2: "compute_score default_config 7200 example_item = Inr s2"
    using h by blast
  then obtain s1 where "compute_score default_config 7200 (example_item\<lparr>published := 3600\<rparr>) = Inr s1"
    and "s2 \<le> s1" using t' by blast
  with s2 show ?thesis by blast
qed

section \<open>What the deduplication loop records\<close>

text \<open>What one pass of the loop body can do to the state.\<close>

lemma process_entry_cases:
  assumes "process_entry lib cfg clock cutoff src st e = Inr st'"
  defines "lnk \<equiv> canonical_link (e_link e)"
    and "ttl \<equiv> normalize_space (e_title e)"
  shows "(st' = st \<and> (\<not> eligible cutoff e \<or> (lnk \<noteq> [] \<and> lnk \<in> seen_links st))) \<or>
         (eligible cutoff e \<and> (lnk = [] \<or> lnk \<notin> seen_links st) \<and>
            is_duplicate_title lib ttl (seen_titles st) (duplicate_threshold cfg) \<and>
            st' = (if lnk \<noteq> [] then st\<lparr>seen_links := insert lnk (seen_links st)\<rparr> else st)) \<or>
         (eligible cutoff e \<and> (lnk = [] \<or> lnk \<notin> seen_links st) \<and>
            \<not> is_duplicate_title lib ttl (seen_titles st) (duplicate_threshold cfg) \<and>
            (\<exists>a. link a = lnk \<and> title a = safe_text lib ttl \<and> source a = src \<and>
                 articles st' = articles st @ [a]) \<and>
            seen_titles st' = seen_titles st @ [ttl] \<and>
            seen_links st' = (if lnk \<noteq> [] then insert lnk (seen_links st) else seen_links st))"
proof (cases "e_published e")
  case None
  then show ?thesis using assms(1) by (simp add: process_entry_def eligible_def)
next
  case (Some pub)
  show ?thesis
  proof (cases "pub < cutoff \<or> ttl = []")
    case True
    then have "st' = st" "\<not> eligible cutoff e"
      using assms(1) Some unfolding process_entry_def eligible_def ttl_def Let_def
      by (auto split: if_splits)
    then show ?thesis by simp
  next
    case False
    then have el: "eligible cutoff e" using Some unfolding eligible_def ttl_def by simp
    show ?thesis
    proof (cases "lnk \<noteq> [] \<and> lnk \<in> seen_links st")
      case True
      then have "st' = st"
        using assms(1) Some False unfolding process_entry_def ttl_def lnk_def Let_def
        by (auto split: if_splits)
      then show ?thesis using True by simp
    next
      case new: False
      define st1 where "st1 = (if lnk \<noteq> [] then st\<lparr>seen_links := insert lnk (seen_links st)\<rparr> else st)"
      have t1: "seen_titles st1 = seen_titles st" and a1: "articles st1 = articles st"
        unfolding st1_def by simp_all
      show ?thesis
      proof (cases "is_duplicate_title lib ttl (seen_titles st) (duplicate_threshold cfg)")
        case True
        then have "st' = st1"
          using assms(1) Some False new t1
          unfolding process_entry_def ttl_def[symmetric] lnk_def[symmetric] Let_def st1_def[symmetric]
          by (simp split: if_splits)
        then show ?thesis using el new True unfolding st1_def by simp
      next
        case nodup: False
        define a where "a = \<lparr>title = safe_text lib ttl,
                               summary = safe_text lib (extract_summary cfg e),
                               source = src, published = pub, link = lnk,
                               score = 0, signals = None\<rparr>"
        define st2 where "st2 = st1\<lparr>seen_titles := seen_titles st1 @ [ttl]\<rparr>"
        have r: "(case compute_score cfg (clock (ticks st2)) a of
                   Inl err \<Rightarrow> Inl err
                 | Inr sc \<Rightarrow>
                     if show_signals cfg then
                       Inr (st2\<lparr>articles := articles st2 @
                              [a\<lparr>score := sc,
                                 signals := Some (scoring_signals (clock (ticks st2 + 1))
                                                   (a\<lparr>score := sc\<rparr>))\<rparr>],
                            ticks := ticks st2 + 2\<rparr>)
                     else
                       Inr (st2\<lparr>articles := articles st2 @ [a\<lparr>score := sc\<rparr>],
                            ticks := ticks st2 + 1\<rparr>)) = Inr st'"
          using assms(1) Some False new nodup t1
          unfolding process_entry_def ttl_def[symmetric] lnk_def[symmetric] Let_def
            st1_def[symmetric] st2_def[symmetric] a_def
          by (simp split: if_splits)
        then obtain sc where sc: "compute_score cfg (clock (ticks st2)) a = Inr sc"
          by (cases "compute_score cfg (clock (ticks st2)) a") simp_all
        define b where "b = (if show_signals cfg
            then a\<lparr>score := sc, signals := Some (scoring_signals (clock (ticks st2 + 1)) (a\<lparr>score := sc\<rparr>))\<rparr>
            else a\<lparr>score := sc\<rparr>)"
        have st': "st' = st2\<lparr>articles := articles st2 @ [b],
                        ticks := (if show_signals cfg then ticks st2 + 2 else ticks st2 + 1)\<rparr>"
          using r sc unfolding b_def by (simp split: if_splits)
        have b: "link b = lnk" "title b = safe_text lib ttl" "source b = src"
          unfolding b_def a_def by simp_all
        have "articles st' = articles st @ [b]" unfolding st' st2_def using a1 by simp
        moreover have "seen_titles st' = seen_titles st @ [ttl]" unfolding st' st2_def using t1 by simp
        moreover have "seen_links st' = (if lnk \<noteq> [] then insert lnk (seen_links st) else seen_links st)"
          unfolding st' st2_def st1_def by simp
        ultimately show ?thesis using el new nodup b by blast
      qed
    qed
  qed
qed

text \<open>
  The three facts that the loop keeps: the titles of the accepted articles are the seen
  titles after unescaping, the links of the accepted articles are among the seen links,
  and the seen links grow by the link of every eligible entry.
\<close>

lemma process_entry_inv:
  assumes "process_entry lib cfg clock cutoff src st e = Inr st'"
    and "map title (articles st) = map (safe_text lib) (seen_titles st)"
    and "\<forall>a\<in>set (articles st). link a \<noteq> [] \<longrightarrow> link a \<in> seen_links st"
  shows "map title (articles st') = map (safe_text lib) (seen_titles st') \<and>
         (\<forall>a\<in>set (articles st'). link a \<noteq> [] \<longrightarrow> link a \<in> seen_links st') \<and>
         seen_links st' = seen_links st \<union>
           {l. l \<noteq> [] \<and> eligible cutoff e \<and> canonical_link (e_link e) = l}"
  using process_entry_cases[OF assms(1)] assms(2,3)
  by (elim disjE conjE exE) (auto split: if_splits)

lemma process_entries_inv:
  assumes "process_entries lib cfg clock cutoff src st es = Inr st'"
    and "map title (articles st) = map (safe_text lib) (seen_titles st)"
    and "\<forall>a\<in>set (articles st). link a \<noteq> [] \<longrightarrow> link a \<in> seen_links st"
  shows "map title (articles st') = map (safe_text lib) (seen_titles st') \<and>
         (\<forall>a\<in>set (articles st'). link a \<noteq> [] \<longrightarrow> link a \<in> seen_links st') \<and>
         seen_links st' = seen_links st \<union>
           {l. l \<noteq> [] \<and> (\<exists>e\<in>set es. eligible cutoff e \<and> canonical_link (e_link e) = l)}"
  using assms
proof (induction es arbitrary: st)
  case Nil
  then show ?case by simp
next
  case (Cons e es)
  from Cons.prems(1) obtain st1 where
    s1: "process_entry lib cfg clock cutoff src st e = Inr st1" and
    s2: "process_entries lib cfg clock cutoff src st1 es = Inr st'"
    by (cases "process_entry lib cfg clock cutoff src st e") simp_all
  note i1 = process_entry_inv[OF s1 Cons.prems(2,3)]
  note i2 = Cons.IH[OF s2 i1[THEN conjunct1] i1[THEN conjunct2, THEN conjunct1]]
  have "seen_links st' = seen_links st \<union>
      {l. l \<noteq> [] \<and> eligible cutoff e \<and> canonical_link (e_link e) = l} \<union>
      {l. l \<noteq> [] \<and> (\<exists>e\<in>set es. eligible cutoff e \<and> canonical_link (e_link e) = l)}"
    using i1 i2 by simp
  also have "\<dots> = seen_links st \<union>
      {l. l \<noteq> [] \<and> (\<exists>e\<in>set (e # es). eligible cutoff e \<and> canonical_link (e_link e) = l)}"
    by auto
  finally have k: "seen_links st' = seen_links st \<union>
      {l. l \<noteq> [] \<and> (\<exists>e\<in>set (e # es). eligible cutoff e \<and> canonical_link (e_link e) = l)}" .
  show ?case
    by (intro conjI) (rule i2[THEN conjunct1], rule i2[THEN conjunct2, THEN conjunct1], rule k)
qed

lemma all_entries_simps:
  "all_entries [] = []"
  "all_entries ((src, None) # fs) = all_entries fs"
  "all_entries ((src, Some es) # fs) = es @ all_entries fs"
  by (simp_all add: all_entries_def)

lemma process_feeds_inv:
  assumes "process_feeds lib cfg clock cutoff st feeds = Inr st'"
    and "map title (articles st) = map (safe_text lib) (seen_titles st)"
    and "\<forall>a\<in>set (articles st). link a \<noteq> [] \<longrightarrow> link a \<in> seen_links st"
  shows "map title (articles st') = map (safe_text lib) (seen_titles st') \<and>
         (\<forall>a\<in>set (articles st'). link a \<noteq> [] \<longrightarrow> link a \<in> seen_links st') \<and>
         seen_links st' = seen_links st \<union>
           {l. l \<noteq> [] \<and>
               (\<exists>e\<in>set (all_entries feeds). eligible cutoff e \<and> canonical_link (e_link e) = l)}"
  using assms
proof (induction lib cfg clock cutoff st feeds rule: process_feeds.induct)
  case (1 lib cfg clock cutoff st)
  then show ?case by (simp add: all_entries_def)
next
  case (2 lib cfg clock cutoff st src fs)
  have "process_feeds lib cfg clock cutoff st fs = Inr st'" using "2.prems"(1) by simp
  note r = "2.IH"[OF this "2.prems"(2,3)]
  show ?case unfolding all_entries_simps(2) by (rule r)
next
  case (3 lib cfg clock cutoff st src es fs)
  from "3.prems"(1) obtain st1 where
    s1: "process_entries lib cfg clock cutoff src st es = Inr st1" and
    s2: "process_feeds lib cfg clock cutoff st1 fs = Inr st'"
    by (cases "process_entries lib cfg clock cutoff src st es") simp_all
  note i1 = process_entries_inv[OF s1 "3.prems"(2,3)]
  note i2 = "3.IH"[OF s1 s2 i1[THEN conjunct1] i1[THEN conjunct2, THEN conjunct1]]
  have "seen_links st' = seen_links st \<union>
      {l. l \<noteq> [] \<and> (\<exists>e\<in>set es. eligible cutoff e \<and> canonical_link (e_link e) = l)} \<union>
      {l. l \<noteq> [] \<and>
          (\<exists>e\<in>set (all_entries fs). eligible cutoff e \<and> canonical_link (e_link e) = l)}"
    using i1 i2 by simp
  also have "\<dots> = seen_links st \<union>
      {l. l \<noteq> [] \<and>
          (\<exists>e\<in>set (all_entries ((src, Some es) # fs)).
             eligible cutoff e \<and> canonical_link (e_link e) = l)}"
    by (auto simp: all_entries_simps)
  finally have k: "seen_links st' = seen_links st \<union>
      {l. l \<noteq> [] \<and>
          (\<exists>e\<in>set (all_entries ((src, Some es) # fs)).
             eligible cutoff e \<and> canonical_link (e_link e) = l)}" .
  show ?case
    by (intro conjI) (rule i2[THEN conjunct1], rule i2[THEN conjunct2, THEN conjunct1], rule k)
qed

text \<open>The loop body on an entry that is accepted, and on one that the title check rejects.\<close>

lemma process_entry_accept:
  assumes "e_published e = Some pub" and "\<not> pub < cutoff"
    and "normalize_space (e_title e) = ttl" and "ttl \<noteq> []"
    and "canonical_link (e_link e) = lnk" and "lnk = [] \<or> lnk \<notin> seen_links st"
    and "\<not> is_duplicate_title lib ttl (seen_titles st) (duplicate_threshold cfg)"
    and "(clock (ticks st) - pub) / 3600 \<le> real_of_int (max 1 (lookback_hours cfg))"
  shows "\<exists>st'. process_entry lib cfg clock cutoff src st e = Inr st' \<and>
           map link (articles st') = map link (articles st) @ [lnk] \<and>
           seen_titles st' = seen_titles st @ [ttl] \<and>
           seen_links st' = (if lnk \<noteq> [] then insert lnk (seen_links st) else seen_links st)"
proof -
  define st1 where "st1 = (if lnk \<noteq> [] then st\<lparr>seen_links := insert lnk (seen_links st)\<rparr> else st)"
  define st2 where "st2 = st1\<lparr>seen_titles := seen_titles st1 @ [ttl]\<rparr>"
  define a where "a = \<lparr>title = safe_text lib ttl,
                         summary = safe_text lib (extract_summary cfg e),
                         source = src, published = pub, link = lnk,
                         score = 0, signals = None\<rparr>"
  have t1: "seen_titles st1 = seen_titles st" "articles st1 = articles st" "ticks st1 = ticks st"
    unfolding st1_def by simp_all
  have "hours_old (clock (ticks st2)) a \<le> real_of_int (max 1 (lookback_hours cfg))"
    using assms(8) t1 unfolding hours_old_def st2_def a_def by simp
  then obtain sc where sc: "compute_score cfg (clock (ticks st2)) a = Inr sc"
    using compute_score_defined by blast
  define b where "b = (if show_signals cfg
      then a\<lparr>score := sc, signals := Some (scoring_signals (clock (ticks st2 + 1)) (a\<lparr>score := sc\<rparr>))\<rparr>
      else a\<lparr>score := sc\<rparr>)"
  define st' where "st' = st2\<lparr>articles := articles st2 @ [b],
                        ticks := (if show_signals cfg then ticks st2 + 2 else ticks st2 + 1)\<rparr>"
  have "process_entry lib cfg clock cutoff src st e = Inr st'"
    using assms(1-7) sc
    unfolding process_entry_def Let_def st'_def b_def st2_def st1_def a_def
    by auto
  moreover have "map link (articles st') = map link (articles st) @ [lnk]"
    unfolding st'_def st2_def b_def a_def using t1 by simp
  moreover have "seen_titles st' = seen_titles st @ [ttl]"
    unfolding st'_def st2_def using t1 by simp
  moreover have "seen_links st' = (if lnk \<noteq> [] then insert lnk (seen_links st) else seen_links st)"
    unfolding st'_def st2_def st1_def by simp
  ultimately show ?thesis by blast
qed

lemma process_entry_duplicate:
  assumes "e_published e = Some pub" and "\<not> pub < cutoff"
    and "normalize_space (e_title e) = ttl" and "ttl \<noteq> []"
    and "canonical_link (e_link e) = lnk" and "lnk \<noteq> []" and "lnk \<notin> seen_links st"
    and "is_duplicate_title lib ttl (seen_titles st) (duplicate_threshold cfg)"
  shows "process_entry lib cfg clock cutoff src st e = Inr (st\<lparr>seen_links := insert lnk (seen_links st)\<rparr>)"
  using assms unfolding process_entry_def Let_def by simp

text \<open>
  C1 (amended). When the loop has run over the feeds, the seen titles are, one for one
  and in order, the normalised titles of the accepted articles (an article's title is the
  seen title after unescaping). Every non-empty link of an accepted article is among the
  seen links, and the seen links are exactly the non-empty canonical links of all entries
  that reached the link check, that is, entries with a timestamp inside the window and a
  title: a link is recorded when the entry passes the link check, also when the title
  check then rejects the entry. As the statement holds for every list of feeds, it holds
  after every entry.
\<close>

theorem collect_seen_amended:
  assumes "collect lib cfg clock feeds = Inr st"
  shows "map title (articles st) = map (safe_text lib) (seen_titles st) \<and>
         (\<forall>a\<in>set (articles st). link a \<noteq> [] \<longrightarrow> link a \<in> seen_links st) \<and>
         seen_links st =
           {l. l \<noteq> [] \<and>
               (\<exists>e\<in>set (all_entries feeds).
                  eligible (cutoff_of cfg clock) e \<and> canonical_link (e_link e) = l)}"
proof -
  let ?init = "\<lparr>articles = [], seen_titles = [], seen_links = {}, ticks = 1\<rparr>"
  have p1: "map title (articles ?init) = map (safe_text lib) (seen_titles ?init)" by simp
  have p2: "\<forall>a\<in>set (articles ?init). link a \<noteq> [] \<longrightarrow> link a \<in> seen_links ?init" by simp
  note i = process_feeds_inv[OF assms[unfolded collect_def] p1 p2]
  have k: "seen_links st =
           {l. l \<noteq> [] \<and>
               (\<exists>e\<in>set (all_entries feeds).
                  eligible (cutoff_of cfg clock) e \<and> canonical_link (e_link e) = l)}"
    using i[THEN conjunct2, THEN conjunct2] by simp
  show ?thesis
    by (intro conjI) (rule i[THEN conjunct1], rule i[THEN conjunct2, THEN conjunct1], rule k)
qed

text \<open>
  The run over the example feed: the first entry is accepted, the second has a new link
  and the same title, so its link is recorded and the entry is dropped.
\<close>

lemma two_feeds_run:
  "\<exists>st. collect example_lib default_config (\<lambda>n. 0) two_feeds = Inr st \<and>
        map link (articles st) = [ustr ''http://a/1''] \<and>
        seen_titles st = [ustr ''Alpha flaw''] \<and>
        seen_links st = {ustr ''http://a/1'', ustr ''http://a/2''}"
proof -
  let ?init = "\<lparr>articles = [], seen_titles = [], seen_links = {}, ticks = 1\<rparr>"
  let ?cut = "cutoff_of default_config (\<lambda>n. 0)"
  let ?src = "ustr ''Krebs on Security''"
  have n: "normalize_space (ustr ''Alpha flaw'') = ustr ''Alpha flaw''" by code_simp
  have l1: "canonical_link (ustr ''http://a/1'') = ustr ''http://a/1''" by code_simp
  have l2: "canonical_link (ustr ''http://a/2'') = ustr ''http://a/2''" by code_simp
  have ne: "ustr ''Alpha flaw'' \<noteq> []" "ustr ''http://a/1'' \<noteq> []" "ustr ''http://a/2'' \<noteq> []"
    "ustr ''http://a/2'' \<noteq> ustr ''http://a/1''"
    by (simp_all add: ustr_def)
  have cut: "\<not> (0::real) < ?cut" by (simp add: cutoff_of_def default_config_def)
  have p: "\<exists>st'. process_entry example_lib default_config (\<lambda>n. 0) ?cut ?src ?init entry_one = Inr st' \<and>
           map link (articles st') = map link (articles ?init) @ [ustr ''http://a/1''] \<and>
           seen_titles st' = seen_titles ?init @ [ustr ''Alpha flaw''] \<and>
           seen_links st' = (if ustr ''http://a/1'' \<noteq> [] then insert (ustr ''http://a/1'') (seen_links ?init)
                             else seen_links ?init)"
  proof (rule process_entry_accept[where pub = 0])
    show "e_published entry_one = Some 0" by (simp add: entry_one_def)
    show "\<not> 0 < ?cut" by (rule cut)
    show "normalize_space (e_title entry_one) = ustr ''Alpha flaw''" by (simp add: entry_one_def n)
    show "ustr ''Alpha flaw'' \<noteq> []" by (rule ne(1))
    show "canonical_link (e_link entry_one) = ustr ''http://a/1''" by (simp add: entry_one_def l1)
    show "ustr ''http://a/1'' = [] \<or> ustr ''http://a/1'' \<notin> seen_links ?init" by simp
    show "\<not> is_duplicate_title example_lib (ustr ''Alpha flaw'') (seen_titles ?init)
        (duplicate_threshold default_config)" by (simp add: is_duplicate_title_def)
    show "((\<lambda>n. 0) (ticks ?init) - 0) / 3600 \<le> real_of_int (max 1 (lookback_hours default_config))"
      by (simp add: default_config_def)
  qed
  then obtain st1 where s1: "process_entry example_lib default_config (\<lambda>n. 0) ?cut ?src ?init entry_one = Inr st1"
    and a1': "map link (articles st1) = map link (articles ?init) @ [ustr ''http://a/1'']"
    and t1': "seen_titles st1 = seen_titles ?init @ [ustr ''Alpha flaw'']"
    and k1': "seen_links st1 = (if ustr ''http://a/1'' \<noteq> [] then insert (ustr ''http://a/1'') (seen_links ?init)
                             else seen_links ?init)"
    by blast
  have a1: "map link (articles st1) = [ustr ''http://a/1'']" using a1' by simp
  have t1: "seen_titles st1 = [ustr ''Alpha flaw'']" using t1' by simp
  have k1: "seen_links st1 = {ustr ''http://a/1''}" using k1' ne(2) by simp
  have dup: "is_duplicate_title example_lib (ustr ''Alpha flaw'') (seen_titles st1)
      (duplicate_threshold default_config)"
    unfolding t1 by (simp add: is_duplicate_title_def example_lib_def default_config_def)
  have s2: "process_entry example_lib default_config (\<lambda>n. 0) ?cut ?src st1 entry_two =
      Inr (st1\<lparr>seen_links := insert (ustr ''http://a/2'') (seen_links st1)\<rparr>)"
  proof (rule process_entry_duplicate[where pub = 0 and ttl = "ustr ''Alpha flaw''"])
    show "e_published entry_two = Some 0" by (simp add: entry_two_def)
    show "\<not> 0 < ?cut" by (rule cut)
    show "normalize_space (e_title entry_two) = ustr ''Alpha flaw''" by (simp add: entry_two_def n)
    show "ustr ''Alpha flaw'' \<noteq> []" by (rule ne(1))
    show "canonical_link (e_link entry_two) = ustr ''http://a/2''" by (simp add: entry_two_def l2)
    show "ustr ''http://a/2'' \<noteq> []" by (rule ne(3))
    show "ustr ''http://a/2'' \<notin> seen_links st1" unfolding k1 using ne(4) by simp
    show "is_duplicate_title example_lib (ustr ''Alpha flaw'') (seen_titles st1)
      (duplicate_threshold default_config)" by (rule dup)
  qed
  have "collect example_lib default_config (\<lambda>n. 0) two_feeds =
      Inr (st1\<lparr>seen_links := insert (ustr ''http://a/2'') (seen_links st1)\<rparr>)"
    unfolding collect_def two_feeds_def using s1 s2 by simp
  moreover have "seen_links (st1\<lparr>seen_links := insert (ustr ''http://a/2'') (seen_links st1)\<rparr>) =
      {ustr ''http://a/1'', ustr ''http://a/2''}" unfolding k1 by (simp add: insert_commute)
  ultimately show ?thesis using a1 t1
    by (intro exI[of _ "st1\<lparr>seen_links := insert (ustr ''http://a/2'') (seen_links st1)\<rparr>"]) simp
qed

text \<open>The amended statement on the run over the example feed.\<close>

theorem collect_seen_amended_witness:
  "case collect example_lib default_config (\<lambda>n. 0) two_feeds of
     Inl err \<Rightarrow> False
   | Inr st \<Rightarrow> map title (articles st) = map (safe_text example_lib) (seen_titles st) \<and>
       length (articles st) = 1"
proof -
  from two_feeds_run obtain st
    where c: "collect example_lib default_config (\<lambda>n. 0) two_feeds = Inr st"
    and a: "map link (articles st) = [ustr ''http://a/1'']"
    by (elim exE conjE)
  have "map title (articles st) = map (safe_text example_lib) (seen_titles st)"
    by (rule collect_seen_amended[OF c, THEN conjunct1])
  moreover have "length (articles st) = 1"
  proof -
    have "length (map link (articles st)) = length [ustr ''http://a/1'']" unfolding a ..
    then show ?thesis by simp
  qed
  ultimately show ?thesis using c by simp
qed

text \<open>
  C1 as stated fails on the example feed: the link of the second entry is in the seen
  links although the entry was rejected by the title check and no accepted article has
  that link.
\<close>

theorem collect_seen_counterexample:
  "case collect example_lib default_config (\<lambda>n. 0) two_feeds of
     Inl err \<Rightarrow> False
   | Inr st \<Rightarrow> map link (articles st) = [ustr ''http://a/1''] \<and>
       ustr ''http://a/2'' \<in> seen_links st \<and>
       ustr ''http://a/2'' \<notin> set (map link (articles st))"
proof -
  from two_feeds_run obtain st
    where c: "collect example_lib default_config (\<lambda>n. 0) two_feeds = Inr st"
    and a: "map link (articles st) = [ustr ''http://a/1'']"
    and k: "seen_links st = {ustr ''http://a/1'', ustr ''http://a/2''}"
    by (elim exE conjE)
  have "ustr ''http://a/2'' \<noteq> ustr ''http://a/1''" by (simp add: ustr_def)
  then show ?thesis using c a k by simp
qed

section \<open>The ranked list\<close>















section \<open>Chunks of the digest\<close>



lemma length_strip_le: "length (strip s) \<le> length s"
proof -
  have "length (lstrip s) \<le> length s" unfolding lstrip_def by (rule length_dropWhile_le)
  moreover have "length (rstrip (lstrip s)) \<le> length (lstrip s)" by (rule rstrip_length)
  ultimately show ?thesis unfolding strip_def by linarith
qed















end
